theory Spec2Isabelle
  imports Main
begin

section \<open>JavaScript values\<close>

text \<open>
  Values of TypeScript type \<open>unknown\<close>: what \<open>JSON.parse\<close> returns, plus
  \<open>undefined\<close> for an absent property. Numbers are modelled as integers (the
  correlation ids and the upstream subscription ids of the protocol are integers).
\<close>

datatype jsval =
    JUndefined
  | JNull
  | JBool bool
  | JNum int
  | JStr string
  | JArr "jsval list"
  | JObj "(string \<times> jsval) list"

text \<open>Property access \<open>v.k\<close> (and \<open>v?.k\<close>) on a parsed value: only an object
  has own properties; everything else answers \<open>undefined\<close>.\<close>

fun getprop :: "jsval \<Rightarrow> string \<Rightarrow> jsval" where
  "getprop (JObj fs) k = (case map_of fs k of Some v \<Rightarrow> v | None \<Rightarrow> JUndefined)"
| "getprop v k = JUndefined"

text \<open>JavaScript truthiness, as used by \<open>if (x)\<close> and \<open>!x\<close>.\<close>

fun truthy :: "jsval \<Rightarrow> bool" where
  "truthy JUndefined = False"
| "truthy JNull = False"
| "truthy (JBool b) = b"
| "truthy (JNum n) = (n \<noteq> 0)"
| "truthy (JStr s) = (s \<noteq> [])"
| "truthy (JArr xs) = True"
| "truthy (JObj fs) = True"

text \<open>\<open>x == null\<close>: true for \<open>null\<close> and \<open>undefined\<close> only.\<close>

fun nullish :: "jsval \<Rightarrow> bool" where
  "nullish JUndefined = True"
| "nullish JNull = True"
| "nullish v = False"

section \<open>JavaScript \<open>Map\<close>\<close>

text \<open>
  A \<open>Map\<close> keeps its entries in insertion order. \<open>delete\<close> and \<open>clear\<close> empty an
  entry in place (\<open>None\<close>), \<open>set\<close> of a new key appends, so a running iterator is a
  position in the entry list: it skips emptied entries and reaches entries appended
  while it runs. Keys are compared by value here, as a \<open>Map\<close> compares strings and
  numbers; arrays and objects it compares by identity (see \<open>handleNotification\<close>).
\<close>

type_synonym ('k, 'v) jsmap = "('k \<times> 'v) option list"

definition live :: "('k, 'v) jsmap \<Rightarrow> ('k \<times> 'v) list" where
  "live m = concat (map (\<lambda>e. case e of None \<Rightarrow> [] | Some kv \<Rightarrow> [kv]) m)"

definition mget :: "('k, 'v) jsmap \<Rightarrow> 'k \<Rightarrow> 'v option" where
  "mget m k = map_of (live m) k"

definition mdelete :: "('k, 'v) jsmap \<Rightarrow> 'k \<Rightarrow> ('k, 'v) jsmap" where
  "mdelete m k = map (\<lambda>e. case e of None \<Rightarrow> None
                                  | Some (k', v) \<Rightarrow> if k' = k then None else Some (k', v)) m"

definition mset :: "('k, 'v) jsmap \<Rightarrow> 'k \<Rightarrow> 'v \<Rightarrow> ('k, 'v) jsmap" where
  "mset m k v =
     (if mget m k = None then m @ [Some (k, v)]
      else map (\<lambda>e. case e of None \<Rightarrow> None
                            | Some (k', v') \<Rightarrow> if k' = k then Some (k, v) else Some (k', v')) m)"

definition mclear :: "('k, 'v) jsmap \<Rightarrow> ('k, 'v) jsmap" where
  "mclear m = map (\<lambda>e. None) m"

definition msize :: "('k, 'v) jsmap \<Rightarrow> nat" where
  "msize m = length (live m)"

section \<open>Upstream connection manager (\<open>upstream.service.ts\<close>)\<close>

datatype readyState = CONNECTING | OPEN | CLOSING | CLOSED

text \<open>The three ways \<open>sendRequest\<close> rejects.\<close>

datatype rpc_error =
    NotConnected
  | Timeout int
  | UpstreamError jsval

text \<open>A settled promise: \<open>Inl\<close> the rejection, \<open>Inr\<close> the \<open>result\<close> field.\<close>

type_synonym outcome = "rpc_error + jsval"

text \<open>
  The continuations that callers chain on the promise \<open>sendRequest\<close> returns. Each
  names the closure of the source it stands for; the subscription is a reference into
  the object store of the registry.
  \<^item> \<open>SubscribeK r\<close>: the \<open>.then/.catch\<close> chain of \<open>subscribe\<close> for subscription
    object \<open>r\<close>, followed by the gateway's reply;
  \<^item> \<open>ResubscribeK r p j\<close>: the \<open>.then/.catch\<close> chain of \<open>handleReconnected\<close> for
    object \<open>r\<close> found under key \<open>p\<close>, followed by the rest of its loop, whose
    iterator stands at entry \<open>j\<close>;
  \<^item> \<open>TeardownK\<close>: the \<open>await\<close> of \<open>teardown\<close> (logs either way);
  \<^item> \<open>CleanupK\<close>: the \<open>.catch\<close> of the unsubscribe sent for a cancelled create.
\<close>

datatype cont =
    SubscribeK nat
  | ResubscribeK nat string nat
  | TeardownK
  | CleanupK

record PendingRequest =
  handler :: cont
  timer :: nat

record upstream =
  ws :: "readyState option"
  rpcId :: int
  pending :: "(int, PendingRequest) jsmap"
  reconnectAttempt :: nat
  reconnectTimer :: "nat option"
  destroyed :: bool
  wire :: "(int \<times> string \<times> jsval list) list"

text \<open>
  \<open>sendRequest\<close> with continuation \<open>k\<close> chained on the promise it returns. The second
  component is \<open>Some e\<close> when the promise is rejected on the spot with \<open>e\<close>, and \<open>None\<close>
  when the request was written and the promise is pending under the id just used.
  \<open>wire\<close> lists the requests written to the socket; \<open>timer\<close> is the delay of the
  timeout armed for the request.
\<close>

definition sendRequest :: "upstream \<Rightarrow> string \<Rightarrow> jsval list \<Rightarrow> cont \<Rightarrow> upstream \<times> rpc_error option" where
  "sendRequest u m ps k =
     (if ws u \<noteq> Some OPEN then (u, Some NotConnected)
      else (u\<lparr>rpcId := rpcId u + 1,
               pending := mset (pending u) (rpcId u) \<lparr>handler = k, timer = 30000\<rparr>,
               wire := wire u @ [(rpcId u, m, ps)]\<rparr>, None))"

text \<open>What \<open>handleMessage\<close> does with a message.\<close>

datatype classified =
    Settle cont outcome
  | Notification jsval
  | Dropped

text \<open>
  \<open>handleMessage\<close>, called on the parsed message. \<open>msg.id\<close> on \<open>null\<close> throws; the
  \<open>message\<close> handler catches and logs, so nothing happens.
\<close>

definition handleMessage :: "upstream \<Rightarrow> jsval \<Rightarrow> upstream \<times> classified" where
  "handleMessage u msg =
     (if msg = JNull then (u, Dropped)
      else case getprop msg ''id'' of
        JNum i \<Rightarrow>
          (case mget (pending u) i of
             Some p \<Rightarrow>
               (u\<lparr>pending := mdelete (pending u) i\<rparr>,
                if truthy (getprop msg ''error'')
                then Settle (handler p) (Inl (UpstreamError (getprop msg ''error'')))
                else Settle (handler p) (Inr (getprop msg ''result'')))
           | None \<Rightarrow> (u, Dropped))
      | _ \<Rightarrow>
          (case getprop msg ''method'' of
             JStr m \<Rightarrow> if m \<noteq> [] then (u, Notification msg) else (u, Dropped)
           | _ \<Rightarrow> (u, Dropped)))"

text \<open>
  The timeout callback of request \<open>i\<close>. Its timer lives exactly as long as the pending
  entry (\<open>clearTimeout\<close> goes with every \<open>pending.delete\<close>), so it can fire only while
  the entry is there.
\<close>

definition fireTimeout :: "upstream \<Rightarrow> int \<Rightarrow> upstream \<times> classified" where
  "fireTimeout u i =
     (case mget (pending u) i of
        Some p \<Rightarrow> (u\<lparr>pending := mdelete (pending u) i\<rparr>, Settle (handler p) (Inl (Timeout i)))
      | None \<Rightarrow> (u, Dropped))"

text \<open>\<open>scheduleReconnect\<close>; \<open>reconnectTimer\<close> holds the delay of the timer it arms.\<close>

definition scheduleReconnect :: "upstream \<Rightarrow> upstream" where
  "scheduleReconnect u =
     (if destroyed u then u
      else u\<lparr>reconnectTimer := Some (min (1000 * 2 ^ reconnectAttempt u) 30000),
              reconnectAttempt := reconnectAttempt u + 1\<rparr>)"

text \<open>\<open>connect\<close>: a fresh socket, not open yet.\<close>

definition connect :: "upstream \<Rightarrow> upstream" where
  "connect u = (if destroyed u then u else u\<lparr>ws := Some CONNECTING\<rparr>)"

text \<open>The \<open>open\<close> and \<open>close\<close> handlers of the socket, without the events they emit.\<close>

definition ws_open :: "upstream \<Rightarrow> upstream" where
  "ws_open u = u\<lparr>ws := Some OPEN, reconnectAttempt := 0\<rparr>"

definition ws_close :: "upstream \<Rightarrow> upstream" where
  "ws_close u = scheduleReconnect (u\<lparr>ws := Some CLOSED\<rparr>)"

section \<open>Subscription registry (\<open>subscriptions.service.ts\<close>)\<close>

text \<open>
  A \<open>Subscription\<close> object. \<open>pendingPromise\<close> and \<open>unsubscribeTimer\<close> are read for
  being null or not only, so each is the flag "is not null".
\<close>

record Subscription =
  proxySubId :: string
  connectionId :: string
  methodName :: string
  params :: "jsval list"
  heliusSubId :: jsval
  pendingPromise :: bool
  cancelled :: bool
  unsubscribeTimer :: bool

definition UNSUB_METHOD :: "string \<Rightarrow> string option" where
  "UNSUB_METHOD = map_of
     [(''accountSubscribe'', ''accountUnsubscribe''),
      (''programSubscribe'', ''programUnsubscribe''),
      (''logsSubscribe'', ''logsUnsubscribe''),
      (''slotSubscribe'', ''slotUnsubscribe''),
      (''signatureSubscribe'', ''signatureUnsubscribe''),
      (''rootSubscribe'', ''rootUnsubscribe'')]"

text \<open>The \<open>message\<close> of an error reply, and the payloads handed to \<open>clients.send\<close>.\<close>

datatype error_text =
    InvalidJSON
  | InvalidMessageFormat
  | SubscribeFailed rpc_error
  | UnknownSubscription

datatype server_message =
    Subscribed string string
  | Unsubscribed string
  | ErrorReply error_text
  | Forwarded jsval string jsval

text \<open>
  The whole process. Subscription objects are shared by reference between the \<open>subs\<close>
  map and the closures of timers and promise handlers, and outlive their map entry, so
  they live in a store \<open>objs\<close> and are named by their index. \<open>outbox\<close> lists the calls
  of \<open>clients.send\<close>.
\<close>

record state =
  up :: upstream
  objs :: "Subscription list"
  subs :: "(string, nat) jsmap"
  heliusIdToProxy :: "(jsval, string) jsmap"
  connToSub :: "(string, string) jsmap"
  outbox :: "(string \<times> server_message) list"

definition deref :: "state \<Rightarrow> nat \<Rightarrow> Subscription option" where
  "deref s r = (if r < length (objs s) then Some (objs s ! r) else None)"

definition modify :: "state \<Rightarrow> nat \<Rightarrow> (Subscription \<Rightarrow> Subscription) \<Rightarrow> state" where
  "modify s r f = (if r < length (objs s) then s\<lparr>objs := (objs s)[r := f (objs s ! r)]\<rparr> else s)"

definition send :: "state \<Rightarrow> string \<Rightarrow> server_message \<Rightarrow> state" where
  "send s c msg = s\<lparr>outbox := outbox s @ [(c, msg)]\<rparr>"

text \<open>\<open>this.upstream.sendRequest(m, ps)\<close> with continuation \<open>k\<close> chained on its promise.\<close>

definition request :: "state \<Rightarrow> string \<Rightarrow> jsval list \<Rightarrow> cont \<Rightarrow> state \<times> rpc_error option" where
  "request s m ps k = (s\<lparr>up := fst (sendRequest (up s) m ps k)\<rparr>, snd (sendRequest (up s) m ps k))"

text \<open>
  \<open>teardown\<close> up to its \<open>await\<close>; what follows the \<open>await\<close> only logs (\<open>TeardownK\<close>),
  also when the request is rejected on the spot.
\<close>

definition teardown :: "state \<Rightarrow> nat \<Rightarrow> state" where
  "teardown s r =
     (case deref s r of
        None \<Rightarrow> s
      | Some sub \<Rightarrow>
          let s1 = modify s r (\<lambda>x. x\<lparr>unsubscribeTimer := False\<rparr>);
              s2 = s1\<lparr>subs := mdelete (subs s1) (proxySubId sub)\<rparr>
          in if pendingPromise sub then modify s2 r (\<lambda>x. x\<lparr>cancelled := True\<rparr>)
             else (case UNSUB_METHOD (methodName sub) of
                     None \<Rightarrow> s2
                   | Some um \<Rightarrow>
                       if nullish (heliusSubId sub) then s2
                       else fst (request
                                   (s2\<lparr>heliusIdToProxy := mdelete (heliusIdToProxy s2) (heliusSubId sub)\<rparr>)
                                   um [heliusSubId sub] TeardownK)))"

definition removeSub :: "state \<Rightarrow> string \<Rightarrow> state" where
  "removeSub s p =
     (case mget (subs s) p of
        None \<Rightarrow> s
      | Some r \<Rightarrow>
          (case deref s r of
             None \<Rightarrow> s
           | Some sub \<Rightarrow> s\<lparr>subs := mdelete (subs s) p,
                           connToSub := mdelete (connToSub s) (connectionId sub)\<rparr>))"

definition scheduleRemoval :: "state \<Rightarrow> nat \<Rightarrow> state" where
  "scheduleRemoval s r = modify s r (\<lambda>x. x\<lparr>unsubscribeTimer := True\<rparr>)"

text \<open>
  The promise of \<open>subscribe\<close> settles: its \<open>.then\<close> or \<open>.catch\<close> handler runs, the
  \<open>await\<close> returns or throws, and the gateway (the one caller of \<open>subscribe\<close>) replies.
\<close>

definition subscribe_settled :: "state \<Rightarrow> nat \<Rightarrow> outcome \<Rightarrow> state" where
  "subscribe_settled s r out =
     (case deref s r of
        None \<Rightarrow> s
      | Some sub \<Rightarrow>
          (case out of
             Inr result \<Rightarrow>
               send (if cancelled sub
                     then (case UNSUB_METHOD (methodName sub) of
                             None \<Rightarrow> s
                           | Some um \<Rightarrow> fst (request s um [result] CleanupK))
                     else (modify s r (\<lambda>x. x\<lparr>heliusSubId := result, pendingPromise := False\<rparr>))
                            \<lparr>heliusIdToProxy := mset (heliusIdToProxy s) result (proxySubId sub)\<rparr>)
                    (connectionId sub) (Subscribed (proxySubId sub) (methodName sub))
           | Inl err \<Rightarrow>
               send (removeSub (modify s r (\<lambda>x. x\<lparr>pendingPromise := False\<rparr>)) (proxySubId sub))
                    (connectionId sub) (ErrorReply (SubscribeFailed err))))"

text \<open>
  \<open>subscribe\<close> up to its \<open>await\<close>. \<open>uuid\<close> is what \<open>randomUUID().slice(0, 12)\<close> gave.
  When the promise is rejected on the spot, its handlers run before any other event.
\<close>

definition subscribe :: "state \<Rightarrow> string \<Rightarrow> string \<Rightarrow> jsval list \<Rightarrow> string \<Rightarrow> state" where
  "subscribe s c m ps uuid =
     (let s1 = (case mget (connToSub s) c of
                  None \<Rightarrow> s
                | Some ep \<Rightarrow>
                    if ep = [] then s
                    else (case mget (subs s) ep of None \<Rightarrow> s | Some er \<Rightarrow> teardown s er));
          p = ''sub_'' @ uuid;
          r = length (objs s1);
          s2 = s1\<lparr>objs := objs s1 @
                       [\<lparr>proxySubId = p, connectionId = c, methodName = m, params = ps,
                         heliusSubId = JNull, pendingPromise = False, cancelled = False,
                         unsubscribeTimer = False\<rparr>],
                  subs := mset (subs s1) p r,
                  connToSub := mset (connToSub s1) c p\<rparr>;
          s3 = modify (fst (request s2 m ps (SubscribeK r))) r (\<lambda>x. x\<lparr>pendingPromise := True\<rparr>)
      in case snd (request s2 m ps (SubscribeK r)) of
           None \<Rightarrow> s3
         | Some err \<Rightarrow> subscribe_settled s3 r (Inl err))"

definition unsubscribe :: "state \<Rightarrow> string \<Rightarrow> state \<times> bool" where
  "unsubscribe s p =
     (case mget (subs s) p of
        None \<Rightarrow> (s, False)
      | Some r \<Rightarrow>
          (case deref s r of
             None \<Rightarrow> (s, False)
           | Some sub \<Rightarrow>
               (scheduleRemoval (s\<lparr>connToSub := mdelete (connToSub s) (connectionId sub)\<rparr>) r, True)))"

definition handleDisconnect :: "state \<Rightarrow> string \<Rightarrow> state" where
  "handleDisconnect s c =
     (case mget (connToSub s) c of
        None \<Rightarrow> s
      | Some p \<Rightarrow>
          if p = [] then s
          else (let s1 = (case mget (subs s) p of None \<Rightarrow> s | Some r \<Rightarrow> scheduleRemoval s r)
                in s1\<lparr>connToSub := mdelete (connToSub s1) c\<rparr>))"

text \<open>
  The upstream id of a notification is part of the message just parsed. When it is an
  array or an object it is a new object, which is no key of the reverse table,
  whatever the table holds: \<open>get\<close> finds nothing. (The id that \<open>set\<close> stores and
  \<open>delete\<close> removes is one and the same value held by the subscription, so for them
  comparing by value agrees with the \<open>Map\<close> unless upstream hands out two arrays or
  objects of equal structure as ids; the source types the id as a number.)
\<close>

fun primitive :: "jsval \<Rightarrow> bool" where
  "primitive (JArr xs) = False"
| "primitive (JObj fs) = False"
| "primitive v = True"

definition handleNotification :: "state \<Rightarrow> jsval \<Rightarrow> state" where
  "handleNotification s msg =
     (let h = getprop (getprop msg ''params'') ''subscription''
      in if nullish h \<or> \<not> primitive h then s
         else (case mget (heliusIdToProxy s) h of
                 None \<Rightarrow> s
               | Some p \<Rightarrow>
                   if p = [] then s
                   else (case mget (subs s) p of
                           None \<Rightarrow> s
                         | Some r \<Rightarrow>
                             (case deref s r of
                                None \<Rightarrow> s
                              | Some sub \<Rightarrow>
                                  send s (connectionId sub)
                                    (Forwarded (getprop msg ''method'') p
                                       (getprop (getprop msg ''params'') ''result''))))))"

text \<open>The callback of the grace-period timer of object \<open>r\<close>; it fires only while armed.\<close>

definition graceTimeout :: "state \<Rightarrow> nat \<Rightarrow> state" where
  "graceTimeout s r =
     (case deref s r of
        None \<Rightarrow> s
      | Some sub \<Rightarrow>
          if unsubscribeTimer sub
          then teardown (modify s r (\<lambda>x. x\<lparr>unsubscribeTimer := False\<rparr>)) r
          else s)"

subsection \<open>Resynchronisation after a reconnect\<close>

text \<open>
  The body of the loop of \<open>handleReconnected\<close> for a subscription without an armed
  timer, up to the \<open>await\<close>: clear the upstream id, send the create request again, keep
  its promise. The second component is as for \<open>sendRequest\<close>.
\<close>

definition reissue :: "state \<Rightarrow> nat \<Rightarrow> Subscription \<Rightarrow> string \<Rightarrow> nat \<Rightarrow> state \<times> rpc_error option" where
  "reissue s r sub p j =
     (modify (fst (request (modify s r (\<lambda>x. x\<lparr>heliusSubId := JNull\<rparr>))
                     (methodName sub) (params sub) (ResubscribeK r p j)))
             r (\<lambda>x. x\<lparr>pendingPromise := True\<rparr>),
      snd (request (modify s r (\<lambda>x. x\<lparr>heliusSubId := JNull\<rparr>))
             (methodName sub) (params sub) (ResubscribeK r p j)))"

lemma subs_modify [simp]: "subs (modify s r f) = subs s"
  by (simp add: modify_def)

lemma subs_request [simp]: "subs (fst (request s m ps k)) = subs s"
  by (simp add: request_def)

lemma length_mdelete [simp]: "length (mdelete m k) = length m"
  by (simp add: mdelete_def)

lemma length_subs_teardown [simp]: "length (subs (teardown s r)) = length (subs s)"
  by (simp add: teardown_def Let_def split: option.splits)

lemma subs_reissue [simp]: "subs (fst (reissue s r sub p j)) = subs s"
  by (simp add: reissue_def)

text \<open>
  The loop \<open>for (const [proxySubId, sub] of this.subs)\<close> from iterator position \<open>i\<close>
  until it is suspended at an \<open>await\<close> of a written request, or done. A request
  rejected on the spot is caught at once and the loop goes on.
\<close>

function handleReconnected_loop :: "state \<Rightarrow> nat \<Rightarrow> state" where
  "handleReconnected_loop s i =
     (if length (subs s) \<le> i then s
      else (case subs s ! i of
              None \<Rightarrow> handleReconnected_loop s (Suc i)
            | Some (p, r) \<Rightarrow>
                (case deref s r of
                   None \<Rightarrow> handleReconnected_loop s (Suc i)
                 | Some sub \<Rightarrow>
                     if unsubscribeTimer sub
                     then handleReconnected_loop
                            (teardown (modify s r (\<lambda>x. x\<lparr>unsubscribeTimer := False\<rparr>)) r) (Suc i)
                     else if snd (reissue s r sub p (Suc i)) = None
                     then fst (reissue s r sub p (Suc i))
                     else handleReconnected_loop
                            (modify (fst (reissue s r sub p (Suc i))) r
                               (\<lambda>x. x\<lparr>pendingPromise := False\<rparr>))
                            (Suc i))))"
  by pat_completeness auto
termination
  by (relation "measure (\<lambda>(s, i). length (subs s) - i)") auto

declare handleReconnected_loop.simps [simp del]

definition handleReconnected :: "state \<Rightarrow> state" where
  "handleReconnected s =
     handleReconnected_loop (s\<lparr>heliusIdToProxy := mclear (heliusIdToProxy s)\<rparr>) 0"

text \<open>The promise of a re-issued create settles: its handler runs and the loop resumes.\<close>

definition resubscribe_settled :: "state \<Rightarrow> nat \<Rightarrow> string \<Rightarrow> nat \<Rightarrow> outcome \<Rightarrow> state" where
  "resubscribe_settled s r p j out =
     (case out of
        Inr result \<Rightarrow>
          handleReconnected_loop
            ((modify s r (\<lambda>x. x\<lparr>heliusSubId := result, pendingPromise := False\<rparr>))
               \<lparr>heliusIdToProxy := mset (heliusIdToProxy s) result p\<rparr>) j
      | Inl err \<Rightarrow>
          handleReconnected_loop (modify s r (\<lambda>x. x\<lparr>pendingPromise := False\<rparr>)) j)"

fun settle :: "state \<Rightarrow> cont \<Rightarrow> outcome \<Rightarrow> state" where
  "settle s (SubscribeK r) out = subscribe_settled s r out"
| "settle s (ResubscribeK r p j) out = resubscribe_settled s r p j out"
| "settle s TeardownK out = s"
| "settle s CleanupK out = s"

section \<open>Gateway (\<open>validation.util.ts\<close>, \<open>WsProxyGateway\<close>)\<close>

fun typeof :: "jsval \<Rightarrow> string" where
  "typeof JUndefined = ''undefined''"
| "typeof JNull = ''object''"
| "typeof (JBool b) = ''boolean''"
| "typeof (JNum n) = ''number''"
| "typeof (JStr s) = ''string''"
| "typeof (JArr xs) = ''object''"
| "typeof (JObj fs) = ''object''"

definition VALID_METHODS :: "string list" where
  "VALID_METHODS =
     [''accountSubscribe'', ''programSubscribe'', ''logsSubscribe'',
      ''slotSubscribe'', ''signatureSubscribe'', ''rootSubscribe'']"

datatype ClientMessage =
    ClientSubscribe string "jsval list"
  | ClientUnsubscribe string

definition validateClientMessage :: "jsval \<Rightarrow> ClientMessage option" where
  "validateClientMessage raw =
     (if \<not> truthy raw \<or> typeof raw \<noteq> ''object'' then None
      else if getprop raw ''action'' = JStr ''subscribe'' then
        (case getprop raw ''method'' of
           JStr m \<Rightarrow>
             if m \<notin> set VALID_METHODS then None
             else (case getprop raw ''params'' of
                     JUndefined \<Rightarrow> Some (ClientSubscribe m [])
                   | JArr xs \<Rightarrow> Some (ClientSubscribe m xs)
                   | _ \<Rightarrow> None)
         | _ \<Rightarrow> None)
      else if getprop raw ''action'' = JStr ''unsubscribe'' then
        (case getprop raw ''subscriptionId'' of
           JStr sid \<Rightarrow> Some (ClientUnsubscribe sid)
         | _ \<Rightarrow> None)
      else None)"

definition sendError :: "state \<Rightarrow> string \<Rightarrow> error_text \<Rightarrow> state" where
  "sendError s c t = send s c (ErrorReply t)"

text \<open>
  \<open>handleRawMessage\<close> for the client registered as connection \<open>c\<close>. \<open>data\<close> is what
  \<open>JSON.parse\<close> returned, \<open>None\<close> when it threw.
\<close>

definition handleRawMessage :: "state \<Rightarrow> string \<Rightarrow> jsval option \<Rightarrow> string \<Rightarrow> state" where
  "handleRawMessage s c data uuid =
     (case data of
        None \<Rightarrow> sendError s c InvalidJSON
      | Some parsed \<Rightarrow>
          (case validateClientMessage parsed of
             None \<Rightarrow> sendError s c InvalidMessageFormat
           | Some (ClientSubscribe m ps) \<Rightarrow> subscribe s c m ps uuid
           | Some (ClientUnsubscribe sid) \<Rightarrow>
               if snd (unsubscribe s sid)
               then send (fst (unsubscribe s sid)) c (Unsubscribed sid)
               else sendError (fst (unsubscribe s sid)) c UnknownSubscription))"

section \<open>The process as a state machine\<close>

text \<open>
  One event is one turn of the event loop: a handler and the promise reactions it
  triggers, up to the next \<open>await\<close> of something external.
\<close>

datatype event =
    ClientMessage string "jsval option" string
  | ClientDisconnect string
  | UpstreamMessage jsval
  | RequestTimeout int
  | GraceTimeout nat
  | UpstreamOpen
  | UpstreamClose
  | ReconnectTimeout

fun step :: "state \<Rightarrow> event \<Rightarrow> state" where
  "step s (ClientMessage c data uuid) = handleRawMessage s c data uuid"
| "step s (ClientDisconnect c) = handleDisconnect s c"
| "step s (UpstreamMessage msg) =
     (case snd (handleMessage (up s) msg) of
        Settle k out \<Rightarrow> settle (s\<lparr>up := fst (handleMessage (up s) msg)\<rparr>) k out
      | Notification m \<Rightarrow> handleNotification (s\<lparr>up := fst (handleMessage (up s) msg)\<rparr>) m
      | Dropped \<Rightarrow> s\<lparr>up := fst (handleMessage (up s) msg)\<rparr>)"
| "step s (RequestTimeout i) =
     (case snd (fireTimeout (up s) i) of
        Settle k out \<Rightarrow> settle (s\<lparr>up := fst (fireTimeout (up s) i)\<rparr>) k out
      | _ \<Rightarrow> s\<lparr>up := fst (fireTimeout (up s) i)\<rparr>)"
| "step s (GraceTimeout r) = graceTimeout s r"
| "step s UpstreamOpen = handleReconnected (s\<lparr>up := ws_open (up s)\<rparr>)"
| "step s UpstreamClose = s\<lparr>up := ws_close (up s)\<rparr>"
| "step s ReconnectTimeout = s\<lparr>up := connect (up s)\<rparr>"

definition run :: "state \<Rightarrow> event list \<Rightarrow> state" where
  "run s es = foldl step s es"

text \<open>The process after \<open>onModuleInit\<close>: nothing registered, the first socket connecting.\<close>

definition initial :: state where
  "initial =
     \<lparr>up = \<lparr>ws = Some CONNECTING, rpcId = 1, pending = [], reconnectAttempt = 0,
             reconnectTimer = None, destroyed = False, wire = []\<rparr>,
      objs = [], subs = [], heliusIdToProxy = [], connToSub = [], outbox = []\<rparr>"

section \<open>Definitions used to state the properties\<close>

text \<open>
  The client messages the protocol accepts, in the words of the specification: an
  object with action \<open>subscribe\<close>, a whitelisted method string and params absent or an
  array, or an object with action \<open>unsubscribe\<close> and a string \<open>subscriptionId\<close>.
\<close>

definition accepted_by_spec :: "jsval \<Rightarrow> bool" where
  "accepted_by_spec raw \<longleftrightarrow>
     (\<exists>fs. raw = JObj fs) \<and>
     ((getprop raw ''action'' = JStr ''subscribe''
         \<and> (\<exists>m. getprop raw ''method'' = JStr m \<and> m \<in> set VALID_METHODS)
         \<and> (getprop raw ''params'' = JUndefined \<or> (\<exists>xs. getprop raw ''params'' = JArr xs)))
      \<or> (getprop raw ''action'' = JStr ''unsubscribe''
         \<and> (\<exists>sid. getprop raw ''subscriptionId'' = JStr sid)))"

text \<open>The fields of the connection manager that the reconnect backoff reads and writes.\<close>

definition backoff :: "upstream \<Rightarrow> nat \<times> nat option \<times> bool" where
  "backoff u = (reconnectAttempt u, reconnectTimer u, destroyed u)"

text \<open>
  Proxy ids are drawn at random; \<open>fresh\<close> says that the id a subscribe would draw is
  not the id of an earlier subscription, \<open>fresh_run\<close> that this holds along a trace.
\<close>

definition fresh :: "state \<Rightarrow> event \<Rightarrow> bool" where
  "fresh s e =
     (case e of
        ClientMessage c d uuid \<Rightarrow> ''sub_'' @ uuid \<notin> set (map proxySubId (objs s))
      | _ \<Rightarrow> True)"

fun fresh_run :: "state \<Rightarrow> event list \<Rightarrow> bool" where
  "fresh_run s [] = True"
| "fresh_run s (e # es) = (fresh s e \<and> fresh_run (step s e) es)"

text \<open>
  Invariants of the registry. Proxy ids are unique; a forward entry holds the object
  with that proxy id; a connection entry (outside the set \<open>X\<close> of connections whose
  entry is being replaced) names a registered subscription of that connection whose
  timer is not armed; a cancelled subscription has no forward entry.
\<close>

definition inv_ids :: "state \<Rightarrow> bool" where
  "inv_ids s \<longleftrightarrow> distinct (map proxySubId (objs s))"

definition inv_forward :: "state \<Rightarrow> bool" where
  "inv_forward s \<longleftrightarrow>
     (\<forall>p r. mget (subs s) p = Some r \<longrightarrow> r < length (objs s) \<and> proxySubId (objs s ! r) = p)"

definition inv_conn :: "string set \<Rightarrow> state \<Rightarrow> bool" where
  "inv_conn X s \<longleftrightarrow>
     (\<forall>c p. c \<notin> X \<longrightarrow> mget (connToSub s) c = Some p \<longrightarrow>
        (\<exists>r. mget (subs s) p = Some r \<and> connectionId (objs s ! r) = c
             \<and> \<not> unsubscribeTimer (objs s ! r)))"

definition inv_cancelled :: "state \<Rightarrow> bool" where
  "inv_cancelled s \<longleftrightarrow>
     (\<forall>r. r < length (objs s) \<longrightarrow> cancelled (objs s ! r) \<longrightarrow>
        mget (subs s) (proxySubId (objs s ! r)) = None)"

definition registry_inv :: "string set \<Rightarrow> state \<Rightarrow> bool" where
  "registry_inv X s \<longleftrightarrow> inv_ids s \<and> inv_forward s \<and> inv_conn X s \<and> inv_cancelled s"

text \<open>
  Before the first resync: a reverse entry names a subscription that is neither pending
  nor cancelled, and no re-issued create is in flight.
\<close>

definition inv_reverse :: "state \<Rightarrow> bool" where
  "inv_reverse s \<longleftrightarrow>
     (\<forall>h p. mget (heliusIdToProxy s) h = Some p \<longrightarrow>
        (\<exists>r. r < length (objs s) \<and> proxySubId (objs s ! r) = p
             \<and> \<not> pendingPromise (objs s ! r) \<and> \<not> cancelled (objs s ! r)))"

definition is_resubscribe :: "cont \<Rightarrow> bool" where
  "is_resubscribe k = (case k of ResubscribeK r p j \<Rightarrow> True | _ \<Rightarrow> False)"

definition inv_pending :: "upstream \<Rightarrow> bool" where
  "inv_pending u \<longleftrightarrow> (\<forall>i q. mget (pending u) i = Some q \<longrightarrow> \<not> is_resubscribe (handler q))"

definition reverse_inv :: "state \<Rightarrow> bool" where
  "reverse_inv s \<longleftrightarrow> inv_reverse s \<and> inv_pending (up s)"

text \<open>A JavaScript \<open>Map\<close> never holds a key twice.\<close>

definition unique_keys :: "('k, 'v) jsmap \<Rightarrow> bool" where
  "unique_keys m \<longleftrightarrow> distinct (map fst (live m))"


text \<open>
  What upstream does with a re-issued create request: it answers with a result, it
  answers with an error, or it does not answer and the request times out after 30
  seconds. \<open>answer_event i a\<close> is the event that delivers answer \<open>a\<close> to request \<open>i\<close>,
  and \<open>resolved a\<close> the value the promise of the request resolves with, if it does (a
  response whose \<open>error\<close> is not truthy resolves with its \<open>result\<close>, here missing).
\<close>

datatype answer = Result jsval | ErrorResponse jsval | NoResponse

fun answer_event :: "int \<Rightarrow> answer \<Rightarrow> event" where
  "answer_event i (Result h) =
     UpstreamMessage (JObj [(''jsonrpc'', JStr ''2.0''), (''id'', JNum i), (''result'', h)])"
| "answer_event i (ErrorResponse e) =
     UpstreamMessage (JObj [(''jsonrpc'', JStr ''2.0''), (''id'', JNum i), (''error'', e)])"
| "answer_event i NoResponse = RequestTimeout i"

fun resolved :: "answer \<Rightarrow> jsval option" where
  "resolved (Result h) = Some h"
| "resolved (ErrorResponse e) = (if truthy e then None else Some JUndefined)"
| "resolved NoResponse = None"


text \<open>
  A resync that runs undisturbed: after the socket opened, each answer in turn is
  delivered to the request sent last, which is the re-issued create the loop awaits.
\<close>

fun resync_answers :: "state \<Rightarrow> answer list \<Rightarrow> state" where
  "resync_answers s [] = s"
| "resync_answers s (a # as) = resync_answers (step s (answer_event (rpcId (up s) - 1) a)) as"


text \<open>
  What the resync is to do with a subscription, by the comments of
  \<open>handleReconnected\<close> and \<open>teardown\<close>. One with an armed timer is torn down: timer
  cleared, marked cancelled if its create was in flight, and otherwise the unsubscribe
  request for its upstream id sent. Any other is resubscribed: its create request is
  sent again with the method and params it has, and the answer \<open>a\<close> decides its
  upstream id (none when the request failed) and the reverse entry. \<open>fates\<close> hands
  the answers, in order, to the subscriptions that are resubscribed.
\<close>

definition torn_down :: "Subscription \<Rightarrow> Subscription" where
  "torn_down sub = sub\<lparr>unsubscribeTimer := False, cancelled := (cancelled sub \<or> pendingPromise sub)\<rparr>"

definition resynced :: "Subscription \<Rightarrow> answer \<Rightarrow> Subscription" where
  "resynced sub a =
     sub\<lparr>heliusSubId := (case resolved a of None \<Rightarrow> JNull | Some h \<Rightarrow> h), pendingPromise := False\<rparr>"

definition resync_request :: "Subscription \<Rightarrow> (string \<times> jsval list) option" where
  "resync_request sub =
     (if unsubscribeTimer sub
      then (if pendingPromise sub \<or> nullish (heliusSubId sub) then None
            else map_option (\<lambda>um. (um, [heliusSubId sub])) (UNSUB_METHOD (methodName sub)))
      else Some (methodName sub, params sub))"

datatype fate = TornDown | Resubscribed answer

fun fates :: "Subscription list \<Rightarrow> (string \<times> nat) list \<Rightarrow> answer list \<Rightarrow> fate list" where
  "fates os [] as = []"
| "fates os ((p, r) # es) as =
     (if unsubscribeTimer (os ! r) then TornDown # fates os es as
      else (case as of [] \<Rightarrow> [] | a # as' \<Rightarrow> Resubscribed a # fates os es as'))"

definition fate_object :: "Subscription \<Rightarrow> fate \<Rightarrow> Subscription" where
  "fate_object sub f = (case f of TornDown \<Rightarrow> torn_down sub | Resubscribed a \<Rightarrow> resynced sub a)"

definition fate_reverse :: "string \<Rightarrow> fate \<Rightarrow> (jsval \<times> string) list" where
  "fate_reverse p f =
     (case f of
        TornDown \<Rightarrow> []
      | Resubscribed a \<Rightarrow> (case resolved a of None \<Rightarrow> [] | Some h \<Rightarrow> [(h, p)]))"


text \<open>
  The state when the answer \<open>a\<close> to the create re-issued for entry \<open>(p, r)\<close> has been
  handled and the loop is about to resume at position \<open>j\<close>.
\<close>

definition after_answer :: "state \<Rightarrow> nat \<Rightarrow> Subscription \<Rightarrow> string \<Rightarrow> nat \<Rightarrow> answer \<Rightarrow> state" where
  "after_answer s r sub p j a =
     (let q = fst (reissue s r sub p j);
          t = q\<lparr>up := (up q)\<lparr>pending := mdelete (pending (up q)) (rpcId (up s))\<rparr>\<rparr>
      in case resolved a of
           Some h \<Rightarrow> (modify t r (\<lambda>x. x\<lparr>heliusSubId := h, pendingPromise := False\<rparr>))
                       \<lparr>heliusIdToProxy := mset (heliusIdToProxy t) h p\<rparr>
         | None \<Rightarrow> modify t r (\<lambda>x. x\<lparr>pendingPromise := False\<rparr>))"


text \<open>
  The loop resumed at position \<open>i\<close> in state \<open>t\<close> and fed the answers \<open>as\<close> ends in \<open>u\<close>:
  the entries before \<open>i\<close> and the entries without armed timer remain, the requests
  are those of the entries from \<open>i\<close> on, in order, each object met its fate, no other
  object changed, and the reverse table gained the entries of the successful creates.
\<close>

definition resync_result :: "state \<Rightarrow> nat \<Rightarrow> answer list \<Rightarrow> state \<Rightarrow> bool" where
  "resync_result t i as u \<longleftrightarrow>
     live (subs u) =
       live (take i (subs t)) @ filter (\<lambda>e. \<not> unsubscribeTimer (objs t ! snd e)) (live (drop i (subs t)))
   \<and> (\<exists>w. wire (up u) = wire (up t) @ w
          \<and> map snd w = List.map_filter (\<lambda>e. resync_request (objs t ! snd e)) (live (drop i (subs t))))
   \<and> map (\<lambda>e. objs u ! snd e) (live (drop i (subs t))) =
       map2 (\<lambda>e f. fate_object (objs t ! snd e) f) (live (drop i (subs t)))
         (fates (objs t) (live (drop i (subs t))) as)
   \<and> length (objs u) = length (objs t)
   \<and> (\<forall>k. k \<notin> snd ` set (live (drop i (subs t))) \<longrightarrow> objs u ! k = objs t ! k)
   \<and> live (heliusIdToProxy u) =
       live (heliusIdToProxy t) @
         concat (map2 (\<lambda>e f. fate_reverse (fst e) f) (live (drop i (subs t)))
                   (fates (objs t) (live (drop i (subs t))) as))"

section \<open>Example traces\<close>

text \<open>The client messages and upstream replies of the example traces.\<close>

definition slot_request :: jsval where
  "slot_request = JObj [(''action'', JStr ''subscribe''), (''method'', JStr ''slotSubscribe''),
                        (''params'', JArr [])]"

definition unsubscribe_request :: "string \<Rightarrow> jsval" where
  "unsubscribe_request p = JObj [(''action'', JStr ''unsubscribe''), (''subscriptionId'', JStr p)]"

definition reply :: "int \<Rightarrow> int \<Rightarrow> jsval" where
  "reply i h = JObj [(''jsonrpc'', JStr ''2.0''), (''id'', JNum i), (''result'', JNum h)]"

text \<open>
  A create request is in flight when the socket drops; after the reconnect the resync
  sends it again and gets upstream id 8; then the first request times out.
\<close>

definition timeout_after_resync :: "event list" where
  "timeout_after_resync =
     [UpstreamOpen,
      ClientMessage ''c1'' (Some slot_request) ''aaaaaaaaaaaa'',
      UpstreamClose, ReconnectTimeout, UpstreamOpen,
      UpstreamMessage (reply 2 8),
      RequestTimeout 1]"

text \<open>
  A connection subscribes, unsubscribes, and subscribes again with the same method and
  params while the grace-period timer is armed.
\<close>

definition resubscribe_in_grace :: "event list" where
  "resubscribe_in_grace =
     [UpstreamOpen,
      ClientMessage ''c1'' (Some slot_request) ''aaaaaaaaaaaa'',
      UpstreamMessage (reply 1 7),
      ClientMessage ''c1'' (Some (unsubscribe_request ''sub_aaaaaaaaaaaa'')) ''cccccccccccc'',
      ClientMessage ''c1'' (Some slot_request) ''bbbbbbbbbbbb'']"

text \<open>
  An active subscription is being resubscribed after a reconnect when its connection
  subscribes anew, which tears it down; then its re-issued create resolves with
  upstream id 8.
\<close>

definition replaced_during_resync :: "event list" where
  "replaced_during_resync =
     [UpstreamOpen,
      ClientMessage ''c1'' (Some slot_request) ''aaaaaaaaaaaa'',
      UpstreamMessage (reply 1 7),
      UpstreamClose, ReconnectTimeout, UpstreamOpen,
      ClientMessage ''c1'' (Some slot_request) ''bbbbbbbbbbbb'',
      UpstreamMessage (reply 2 8)]"

text \<open>
  After the socket opened, a connection subscribes and, with that create still in
  flight, subscribes again: the first subscription is torn down while pending.
\<close>

definition replaced_in_flight :: "event list" where
  "replaced_in_flight =
     [ClientMessage ''c1'' (Some slot_request) ''aaaaaaaaaaaa'',
      ClientMessage ''c1'' (Some slot_request) ''bbbbbbbbbbbb'']"

text \<open>
  Three connections subscribe and get upstream ids 7, 8 and 9; the first disconnects,
  which arms the timer of its subscription; then the socket drops and a reconnect
  starts.
\<close>

definition resync_example :: "event list" where
  "resync_example =
     [UpstreamOpen,
      ClientMessage ''c1'' (Some slot_request) ''aaaaaaaaaaaa'',
      UpstreamMessage (reply 1 7),
      ClientMessage ''c2'' (Some slot_request) ''bbbbbbbbbbbb'',
      UpstreamMessage (reply 2 8),
      ClientMessage ''c3'' (Some slot_request) ''cccccccccccc'',
      UpstreamMessage (reply 3 9),
      ClientDisconnect ''c1'',
      UpstreamClose, ReconnectTimeout]"

text \<open>A notification of upstream subscription \<open>h\<close>.\<close>

definition slot_notification :: "int \<Rightarrow> jsval" where
  "slot_notification h =
     JObj [(''jsonrpc'', JStr ''2.0''), (''method'', JStr ''slotNotification''),
           (''params'', JObj [(''subscription'', JNum h), (''result'', JObj [(''slot'', JNum 1)])])]"

text \<open>
  Two connections subscribe and get upstream ids 7 and 8; the second disconnects, which
  arms the timer of its subscription; the socket drops and reconnects; on the new
  connection upstream answers the re-issued create of the first subscription with
  id 8.
\<close>

definition stale_id_reused :: "event list" where
  "stale_id_reused =
     [UpstreamOpen,
      ClientMessage ''c1'' (Some slot_request) ''aaaaaaaaaaaa'',
      UpstreamMessage (reply 1 7),
      ClientMessage ''c2'' (Some slot_request) ''bbbbbbbbbbbb'',
      UpstreamMessage (reply 2 8),
      ClientDisconnect ''c2'',
      UpstreamClose, ReconnectTimeout, UpstreamOpen,
      UpstreamMessage (reply 3 8)]"

text \<open>
  The create request of \<open>subscribe\<close> is unanswered when the socket drops; after the
  reconnect the resync sends it again; the connection subscribes anew, which tears the
  subscription down while pending; then the re-issued create resolves with id 8. The
  first request (id 1) is still pending.
\<close>

definition cancelled_after_resync :: "event list" where
  "cancelled_after_resync =
     [UpstreamOpen,
      ClientMessage ''c1'' (Some slot_request) ''aaaaaaaaaaaa'',
      UpstreamClose, ReconnectTimeout, UpstreamOpen,
      ClientMessage ''c1'' (Some slot_request) ''bbbbbbbbbbbb'',
      UpstreamMessage (reply 2 8)]"
section \<open>Facts about \<open>Map\<close>\<close>

lemma live_Nil [simp]: "live [] = []"
  by (simp add: live_def)

lemma live_Cons [simp]: "live (e # m) = (case e of None \<Rightarrow> live m | Some kv \<Rightarrow> kv # live m)"
  by (simp add: live_def split: option.splits)

lemma live_append [simp]: "live (m @ n) = live m @ live n"
  by (simp add: live_def)

lemma mget_Nil [simp]: "mget [] k = None"
  by (simp add: mget_def)

lemma mget_mdelete [simp]: "mget (mdelete m k) k' = (if k' = k then None else mget m k')"
  by (induction m) (auto simp: mget_def mdelete_def split: option.splits)

lemma mget_update_in_place:
  "mget (map (\<lambda>e. case e of None \<Rightarrow> None
                   | Some (k', v') \<Rightarrow> if k' = k then Some (k, v) else Some (k', v')) m) k' =
   (if k' = k then (case mget m k of None \<Rightarrow> None | Some x \<Rightarrow> Some v) else mget m k')"
  by (induction m) (auto simp: mget_def split: option.splits)

lemma mget_append_new:
  "mget (m @ [Some (k, v)]) k' = (case mget m k' of Some x \<Rightarrow> Some x | None \<Rightarrow> if k' = k then Some v else None)"
  by (induction m) (auto simp: mget_def split: option.splits)

lemma mget_mset [simp]: "mget (mset m k v) k' = (if k' = k then Some v else mget m k')"
  by (auto simp: mset_def mget_update_in_place mget_append_new split: option.splits)

lemma mget_mclear [simp]: "mget (mclear m) k = None"
  by (induction m) (auto simp: mget_def mclear_def)

section \<open>Evaluation and frame facts\<close>

text \<open>The defining equations that evaluate the model on a concrete trace.\<close>

lemmas eval_defs =
  run_def initial_def handleReconnected_def handleReconnected_loop.simps ws_open_def
  ws_close_def connect_def scheduleReconnect_def subscribe_def Let_def request_def
  sendRequest_def modify_def mset_def mclear_def mdelete_def mget_def live_def
  handleRawMessage_def validateClientMessage_def VALID_METHODS_def handleMessage_def
  fireTimeout_def subscribe_settled_def resubscribe_settled_def reissue_def teardown_def
  removeSub_def deref_def send_def sendError_def unsubscribe_def scheduleRemoval_def
  UNSUB_METHOD_def graceTimeout_def handleDisconnect_def handleNotification_def

lemmas trace_defs =
  slot_request_def unsubscribe_request_def reply_def timeout_after_resync_def
  resubscribe_in_grace_def replaced_during_resync_def replaced_in_flight_def
  slot_notification_def stale_id_reused_def cancelled_after_resync_def

lemma deref_modify [simp]:
  "deref (modify s r f) r' = (if r' = r then map_option f (deref s r) else deref s r')"
  by (simp add: deref_def modify_def)

lemma modify_fields [simp]:
  "up (modify s r f) = up s"
  "heliusIdToProxy (modify s r f) = heliusIdToProxy s"
  "connToSub (modify s r f) = connToSub s"
  "outbox (modify s r f) = outbox s"
  "length (objs (modify s r f)) = length (objs s)"
  by (simp_all add: modify_def)

lemma deref_simps [simp]:
  "deref (s\<lparr>up := u\<rparr>) r = deref s r"
  "deref (s\<lparr>subs := m\<rparr>) r = deref s r"
  "deref (s\<lparr>heliusIdToProxy := h\<rparr>) r = deref s r"
  "deref (s\<lparr>connToSub := cs\<rparr>) r = deref s r"
  "deref (s\<lparr>outbox := ob\<rparr>) r = deref s r"
  by (simp_all add: deref_def)

lemma request_fields [simp]:
  "objs (fst (request s m ps k)) = objs s"
  "heliusIdToProxy (fst (request s m ps k)) = heliusIdToProxy s"
  "connToSub (fst (request s m ps k)) = connToSub s"
  "outbox (fst (request s m ps k)) = outbox s"
  "deref (fst (request s m ps k)) r = deref s r"
  "up (fst (request s m ps k)) = fst (sendRequest (up s) m ps k)"
  "snd (request s m ps k) = snd (sendRequest (up s) m ps k)"
  by (simp_all add: request_def deref_def)

lemma subs_teardown:
  "subs (teardown s r) =
     (case deref s r of None \<Rightarrow> subs s | Some sub \<Rightarrow> mdelete (subs s) (proxySubId sub))"
  by (simp add: teardown_def Let_def split: option.splits)

lemma validate_iff: "(validateClientMessage raw \<noteq> None) = accepted_by_spec raw"
  by (cases raw) (auto simp: validateClientMessage_def accepted_by_spec_def split: jsval.splits)

lemma validate_subscribe:
  "validateClientMessage raw = Some (ClientSubscribe m ps) \<Longrightarrow>
     getprop raw ''method'' = JStr m \<and>
     (if getprop raw ''params'' = JUndefined then ps = [] else getprop raw ''params'' = JArr ps)"
  by (auto simp: validateClientMessage_def split: jsval.splits if_splits)

lemma validate_unsubscribe:
  "validateClientMessage raw = Some (ClientUnsubscribe sid) \<Longrightarrow> getprop raw ''subscriptionId'' = JStr sid"
  by (auto simp: validateClientMessage_def split: jsval.splits if_splits)

lemma run_snoc: "run s (es @ [e]) = step (run s es) e"
  by (simp add: run_def)

lemma run_Cons: "run s (e # es) = run (step s e) es"
  by (simp add: run_def)

lemma run_Nil: "run s [] = s"
  by (simp add: run_def)

subsection \<open>The backoff fields are touched by the socket handlers only\<close>

lemma backoff_sendRequest [simp]: "backoff (fst (sendRequest u m ps k)) = backoff u"
  by (simp add: sendRequest_def backoff_def)

lemma backoff_handleMessage [simp]: "backoff (fst (handleMessage u msg)) = backoff u"
  by (simp add: handleMessage_def backoff_def split: jsval.splits option.splits)

lemma backoff_fireTimeout [simp]: "backoff (fst (fireTimeout u i)) = backoff u"
  by (simp add: fireTimeout_def backoff_def split: option.splits)

lemma backoff_teardown [simp]: "backoff (up (teardown s r)) = backoff (up s)"
  by (simp add: teardown_def Let_def split: option.splits)

lemma backoff_removeSub [simp]: "backoff (up (removeSub s p)) = backoff (up s)"
  by (simp add: removeSub_def split: option.splits)

lemma backoff_subscribe_settled [simp]: "backoff (up (subscribe_settled s r out)) = backoff (up s)"
  by (simp add: subscribe_settled_def send_def split: option.splits sum.splits)

lemma backoff_subscribe [simp]: "backoff (up (subscribe s c m ps uuid)) = backoff (up s)"
  by (simp add: subscribe_def Let_def split: option.splits)

lemma backoff_unsubscribe [simp]: "backoff (up (fst (unsubscribe s p))) = backoff (up s)"
  by (simp add: unsubscribe_def scheduleRemoval_def split: option.splits)

lemma backoff_handleDisconnect [simp]: "backoff (up (handleDisconnect s c)) = backoff (up s)"
  by (simp add: handleDisconnect_def scheduleRemoval_def Let_def split: option.splits)

lemma backoff_handleNotification [simp]: "backoff (up (handleNotification s msg)) = backoff (up s)"
  by (simp add: handleNotification_def send_def Let_def split: option.splits)

lemma backoff_graceTimeout [simp]: "backoff (up (graceTimeout s r)) = backoff (up s)"
  by (simp add: graceTimeout_def split: option.splits)

lemma backoff_reissue [simp]: "backoff (up (fst (reissue s r sub p j))) = backoff (up s)"
  by (simp add: reissue_def)

lemma backoff_loop [simp]: "backoff (up (handleReconnected_loop s i)) = backoff (up s)"
proof (induction s i rule: handleReconnected_loop.induct)
  case (1 s i)
  show ?case
    by (subst handleReconnected_loop.simps) (auto simp: 1 split: option.splits)
qed

lemma backoff_settle [simp]: "backoff (up (settle s k out)) = backoff (up s)"
  by (cases k) (simp_all add: resubscribe_settled_def split: sum.splits)

lemma backoff_handleRawMessage [simp]: "backoff (up (handleRawMessage s c d uuid)) = backoff (up s)"
  by (simp add: handleRawMessage_def sendError_def send_def split: option.splits ClientMessage.splits)

lemma backoff_step:
  "backoff (up (step s e)) =
     (if e = UpstreamOpen then (0, reconnectTimer (up s), destroyed (up s))
      else if e = UpstreamClose then backoff (scheduleReconnect (up s))
      else backoff (up s))"
proof (cases e)
  case UpstreamOpen
  then show ?thesis
    by (simp add: handleReconnected_def) (simp add: backoff_def ws_open_def)
next
  case UpstreamClose
  then show ?thesis by (simp add: ws_close_def backoff_def scheduleReconnect_def)
next
  case ReconnectTimeout
  then show ?thesis by (simp add: backoff_def connect_def)
qed (simp_all split: classified.splits)

lemma backoff_run:
  "UpstreamOpen \<notin> set es \<Longrightarrow> \<not> destroyed (up s) \<Longrightarrow>
     reconnectAttempt (up (run s es)) = reconnectAttempt (up s) + count_list es UpstreamClose
     \<and> \<not> destroyed (up (run s es))"
proof (induction es arbitrary: s)
  case Nil
  then show ?case by (simp add: run_def)
next
  case (Cons e es)
  have b: "backoff (up (step s e)) =
             (if e = UpstreamClose then backoff (scheduleReconnect (up s)) else backoff (up s))"
    using Cons.prems(1) by (auto simp: backoff_step)
  have d: "\<not> destroyed (up (step s e))"
    using b Cons.prems(2) by (auto simp: backoff_def scheduleReconnect_def split: if_splits)
  have a: "reconnectAttempt (up (step s e)) =
             reconnectAttempt (up s) + (if e = UpstreamClose then 1 else 0)"
    using b Cons.prems(2) by (auto simp: backoff_def scheduleReconnect_def split: if_splits)
  have "run s (e # es) = run (step s e) es" by (simp add: run_def)
  then show ?case
    using Cons.IH [of "step s e"] Cons.prems(1) d a by auto
qed

section \<open>Invariants of the registry\<close>

lemma distinct_proxy_nth:
  "distinct (map proxySubId xs) \<Longrightarrow> r < length xs \<Longrightarrow> r' < length xs \<Longrightarrow>
     proxySubId (xs ! r) = proxySubId (xs ! r') \<Longrightarrow> r = r'"
  by (metis distinct_conv_nth length_map nth_map)

lemma map_proxy_update:
  "proxySubId (f (xs ! r)) = proxySubId (xs ! r) \<Longrightarrow>
     map proxySubId (xs[r := f (xs ! r)]) = map proxySubId xs"
  by (induction xs arbitrary: r) (auto split: nat.splits)

lemma objs_modify:
  "objs (modify s r f) = (if r < length (objs s) then (objs s)[r := f (objs s ! r)] else objs s)"
  by (simp add: modify_def)

lemma nth_objs_modify:
  "k < length (objs s) \<Longrightarrow>
     objs (modify s r f) ! k = (if k = r then f (objs s ! k) else objs s ! k)"
  by (simp add: modify_def)

lemma modify_none: "deref s r = None \<Longrightarrow> modify s r f = s"
  by (simp add: deref_def modify_def split: if_splits)

lemma deref_Some: "deref s r = Some sub \<longleftrightarrow> r < length (objs s) \<and> objs s ! r = sub"
  by (auto simp: deref_def)

lemma registry_inv_modify:
  assumes i: "registry_inv X s"
    and e: "deref s r = Some sub"
    and p: "proxySubId (f sub) = proxySubId sub"
    and c: "connectionId (f sub) = connectionId sub"
    and t: "unsubscribeTimer (f sub) \<Longrightarrow> unsubscribeTimer sub \<or>
            (\<forall>c. c \<notin> X \<longrightarrow> mget (connToSub s) c \<noteq> Some (proxySubId sub))"
    and d: "cancelled (f sub) \<Longrightarrow> cancelled sub \<or> mget (subs s) (proxySubId sub) = None"
  shows "registry_inv X (modify s r f)"
proof -
  have r: "r < length (objs s)" and o: "objs s ! r = sub"
    using e by (simp_all add: deref_Some)
  have m: "map proxySubId (objs (modify s r f)) = map proxySubId (objs s)"
    using p o map_proxy_update [of f "objs s" r] by (simp add: objs_modify)
  have 1: "inv_ids (modify s r f)"
    using i m by (simp add: registry_inv_def inv_ids_def)
  have 2: "inv_forward (modify s r f)"
    using i p o by (auto simp: registry_inv_def inv_forward_def nth_objs_modify)
  have 3: "inv_conn X (modify s r f)"
    unfolding inv_conn_def
  proof (intro allI impI)
    fix c' q assume x: "c' \<notin> X" and g: "mget (connToSub (modify s r f)) c' = Some q"
    then obtain k where k: "mget (subs s) q = Some k" "connectionId (objs s ! k) = c'"
      "\<not> unsubscribeTimer (objs s ! k)" "k < length (objs s)" "proxySubId (objs s ! k) = q"
      using i unfolding registry_inv_def inv_conn_def inv_forward_def by (metis modify_fields(3))
    have "\<not> unsubscribeTimer (objs (modify s r f) ! k)"
      using t k x g o by (auto simp: nth_objs_modify)
    then show "\<exists>k. mget (subs (modify s r f)) q = Some k
        \<and> connectionId (objs (modify s r f) ! k) = c' \<and> \<not> unsubscribeTimer (objs (modify s r f) ! k)"
      using k c o by (auto simp: nth_objs_modify)
  qed
  have 4: "inv_cancelled (modify s r f)"
    unfolding inv_cancelled_def
  proof (intro allI impI)
    fix k assume k: "k < length (objs (modify s r f))" and cc: "cancelled (objs (modify s r f) ! k)"
    then show "mget (subs (modify s r f)) (proxySubId (objs (modify s r f) ! k)) = None"
      using d p i o
      by (auto simp: nth_objs_modify registry_inv_def inv_cancelled_def split: if_splits)
  qed
  show ?thesis using 1 2 3 4 by (simp add: registry_inv_def)
qed

lemma registry_inv_frame [simp]:
  "registry_inv X (s\<lparr>up := u\<rparr>) = registry_inv X s"
  "registry_inv X (s\<lparr>outbox := ob\<rparr>) = registry_inv X s"
  "registry_inv X (s\<lparr>heliusIdToProxy := h\<rparr>) = registry_inv X s"
  by (simp_all add: registry_inv_def inv_ids_def inv_forward_def inv_conn_def inv_cancelled_def)

lemma registry_inv_request [simp]: "registry_inv X (fst (request s m ps k)) = registry_inv X s"
  by (simp add: request_def)

lemma registry_inv_send [simp]: "registry_inv X (send s c msg) = registry_inv X s"
  by (simp add: send_def)

lemma registry_inv_weaken: "registry_inv X s \<Longrightarrow> X \<subseteq> Y \<Longrightarrow> registry_inv Y s"
  by (auto simp: registry_inv_def inv_conn_def)

lemma registry_inv_delete:
  assumes i: "registry_inv X s"
    and n: "\<And>c. c \<notin> X \<Longrightarrow> mget (connToSub s) c \<noteq> Some p"
  shows "registry_inv X (s\<lparr>subs := mdelete (subs s) p\<rparr>)"
proof -
  have 1: "inv_ids (s\<lparr>subs := mdelete (subs s) p\<rparr>)"
    using i by (simp add: registry_inv_def inv_ids_def)
  have 2: "inv_forward (s\<lparr>subs := mdelete (subs s) p\<rparr>)"
    using i by (auto simp: registry_inv_def inv_forward_def split: if_splits)
  have 3: "inv_conn X (s\<lparr>subs := mdelete (subs s) p\<rparr>)"
    using i n by (auto simp: registry_inv_def inv_conn_def)
  have 4: "inv_cancelled (s\<lparr>subs := mdelete (subs s) p\<rparr>)"
    using i by (auto simp: registry_inv_def inv_cancelled_def)
  show ?thesis using 1 2 3 4 by (simp add: registry_inv_def)
qed

lemma registry_inv_teardown:
  assumes i: "registry_inv X s"
    and d: "deref s r = Some sub"
    and n: "\<And>c. c \<notin> X \<Longrightarrow> mget (connToSub s) c \<noteq> Some (proxySubId sub)"
  shows "registry_inv X (teardown s r)"
proof -
  let ?s1 = "modify s r (\<lambda>x. x\<lparr>unsubscribeTimer := False\<rparr>)"
  let ?s2 = "?s1\<lparr>subs := mdelete (subs ?s1) (proxySubId sub)\<rparr>"
  have 1: "registry_inv X ?s1"
    using i d by (rule registry_inv_modify) simp_all
  have 2: "registry_inv X ?s2"
    using 1 n by (intro registry_inv_delete) simp_all
  have d2: "deref ?s2 r = Some (sub\<lparr>unsubscribeTimer := False\<rparr>)"
    using d by simp
  have 3: "registry_inv X (modify ?s2 r (\<lambda>x. x\<lparr>cancelled := True\<rparr>))"
    using 2 d2 by (rule registry_inv_modify) simp_all
  show ?thesis
    using 2 3 d by (simp add: teardown_def Let_def split: option.splits)
qed

lemma proxies_modify:
  "(\<And>x. proxySubId (f x) = proxySubId x) \<Longrightarrow>
     map proxySubId (objs (modify s r f)) = map proxySubId (objs s)"
  by (simp add: objs_modify map_proxy_update)

lemma proxies_teardown: "map proxySubId (objs (teardown s r)) = map proxySubId (objs s)"
  by (simp add: teardown_def Let_def proxies_modify split: option.splits)

lemma registry_inv_removeSub:
  assumes i: "registry_inv X s"
  shows "registry_inv X (removeSub s p)"
proof (cases "mget (subs s) p")
  case None
  then show ?thesis using i by (simp add: removeSub_def)
next
  case (Some r)
  then have r: "r < length (objs s)" "proxySubId (objs s ! r) = p"
    using i by (auto simp: registry_inv_def inv_forward_def)
  let ?c = "connectionId (objs s ! r)"
  let ?t = "s\<lparr>subs := mdelete (subs s) p, connToSub := mdelete (connToSub s) ?c\<rparr>"
  have e: "removeSub s p = ?t"
    using Some r by (simp add: removeSub_def deref_def)
  have 1: "inv_ids ?t" using i by (simp add: registry_inv_def inv_ids_def)
  have 2: "inv_forward ?t"
    using i by (auto simp: registry_inv_def inv_forward_def split: if_splits)
  have 3: "inv_conn X ?t"
    using i Some by (auto simp: registry_inv_def inv_conn_def split: if_splits)
  have 4: "inv_cancelled ?t"
    using i by (auto simp: registry_inv_def inv_cancelled_def)
  show ?thesis using 1 2 3 4 e by (simp add: registry_inv_def)
qed

lemma registry_inv_subscribe_settled:
  assumes i: "registry_inv X s"
  shows "registry_inv X (subscribe_settled s r out)"
proof (cases "deref s r")
  case None
  then show ?thesis using i by (simp add: subscribe_settled_def)
next
  case (Some sub)
  have a: "registry_inv X (modify s r (\<lambda>x. x\<lparr>heliusSubId := h, pendingPromise := False\<rparr>))" for h
    using i Some by (rule registry_inv_modify) simp_all
  have b: "registry_inv X (modify s r (\<lambda>x. x\<lparr>pendingPromise := False\<rparr>))"
    using i Some by (rule registry_inv_modify) simp_all
  show ?thesis
    using i a b Some
    by (auto simp: subscribe_settled_def registry_inv_removeSub split: sum.splits option.splits)
qed

lemma registry_inv_conn_delete:
  assumes i: "registry_inv X s"
  shows "registry_inv (X - {c}) (s\<lparr>connToSub := mdelete (connToSub s) c\<rparr>)"
  using i by (auto simp: registry_inv_def inv_ids_def inv_forward_def inv_conn_def inv_cancelled_def
      split: if_splits)

lemma conn_owner:
  assumes i: "registry_inv {} s"
    and a: "mget (subs s) p = Some r"
    and b: "mget (connToSub s) c = Some p"
  shows "connectionId (objs s ! r) = c \<and> \<not> unsubscribeTimer (objs s ! r)"
proof -
  obtain r' where "mget (subs s) p = Some r'" "connectionId (objs s ! r') = c"
      "\<not> unsubscribeTimer (objs s ! r')"
    using i b unfolding registry_inv_def inv_conn_def by blast
  then show ?thesis using a by simp
qed

lemma armed_no_conn:
  assumes i: "registry_inv {} s"
    and d: "deref s r = Some sub"
    and t: "unsubscribeTimer sub"
  shows "mget (connToSub s) c \<noteq> Some (proxySubId sub)"
proof
  assume "mget (connToSub s) c = Some (proxySubId sub)"
  then obtain r' where r': "mget (subs s) (proxySubId sub) = Some r'" "\<not> unsubscribeTimer (objs s ! r')"
    using i by (auto simp: registry_inv_def inv_conn_def)
  then have "r' < length (objs s)" "proxySubId (objs s ! r') = proxySubId sub"
    using i by (auto simp: registry_inv_def inv_forward_def)
  then have "r' = r"
    using i d distinct_proxy_nth [of "objs s" r' r] by (auto simp: registry_inv_def inv_ids_def deref_Some)
  then show False using r' d t by (simp add: deref_Some)
qed

lemma registry_inv_insert:
  assumes i: "registry_inv {c} s"
    and f: "p \<notin> set (map proxySubId (objs s))"
    and n: "proxySubId sub = p" "connectionId sub = c" "\<not> unsubscribeTimer sub" "\<not> cancelled sub"
  shows "registry_inv {} (s\<lparr>objs := objs s @ [sub],
                              subs := mset (subs s) p (length (objs s)),
                              connToSub := mset (connToSub s) c p\<rparr>)"
    (is "registry_inv {} ?t")
proof -
  have k: "r < length (objs s) \<and> proxySubId (objs s ! r) = q \<and> q \<noteq> p"
    if "mget (subs s) q = Some r" for q r
  proof -
    have l: "r < length (objs s) \<and> proxySubId (objs s ! r) = q"
      using i that by (auto simp: registry_inv_def inv_forward_def)
    then have "q \<in> set (map proxySubId (objs s))" by (metis length_map nth_map nth_mem)
    then show ?thesis using l f by auto
  qed
  have 1: "inv_ids ?t"
    using i f n by (simp add: registry_inv_def inv_ids_def)
  have 2: "inv_forward ?t"
    unfolding inv_forward_def
  proof (intro allI impI)
    fix q r assume g: "mget (subs ?t) q = Some r"
    show "r < length (objs ?t) \<and> proxySubId (objs ?t ! r) = q"
    proof (cases "q = p")
      case True
      then show ?thesis using g n by (auto simp: nth_append)
    next
      case False
      then have "mget (subs s) q = Some r" using g by simp
      from k [OF this] show ?thesis by (simp add: nth_append)
    qed
  qed
  have 3: "inv_conn {} ?t"
    unfolding inv_conn_def
  proof (intro allI impI)
    fix c' q assume g: "mget (connToSub ?t) c' = Some q"
    show "\<exists>r. mget (subs ?t) q = Some r \<and> connectionId (objs ?t ! r) = c'
              \<and> \<not> unsubscribeTimer (objs ?t ! r)"
    proof (cases "c' = c")
      case True
      then show ?thesis using g n by auto
    next
      case False
      then have "mget (connToSub s) c' = Some q" using g by simp
      then obtain r where r: "mget (subs s) q = Some r" "connectionId (objs s ! r) = c'"
          "\<not> unsubscribeTimer (objs s ! r)"
        using i False by (auto simp: registry_inv_def inv_conn_def)
      then show ?thesis using k [of q r] by (auto simp: nth_append)
    qed
  qed
  have 4: "inv_cancelled ?t"
    unfolding inv_cancelled_def
  proof (intro allI impI)
    fix r assume r: "r < length (objs ?t)" and cc: "cancelled (objs ?t ! r)"
    then have l: "r < length (objs s)" using n by (auto simp: nth_append less_Suc_eq)
    then have "proxySubId (objs s ! r) \<noteq> p" using f by (metis length_map nth_map nth_mem)
    then show "mget (subs ?t) (proxySubId (objs ?t ! r)) = None"
      using i l cc by (auto simp: registry_inv_def inv_cancelled_def nth_append)
  qed
  show ?thesis using 1 2 3 4 by (simp add: registry_inv_def)
qed

lemma registry_inv_subscribe:
  assumes i: "registry_inv {} s"
    and f: "''sub_'' @ uuid \<notin> set (map proxySubId (objs s))"
  shows "registry_inv {} (subscribe s c m ps uuid)"
proof -
  define s1 where "s1 = (case mget (connToSub s) c of
                  None \<Rightarrow> s
                | Some ep \<Rightarrow>
                    if ep = [] then s
                    else (case mget (subs s) ep of None \<Rightarrow> s | Some er \<Rightarrow> teardown s er))"
  have w: "registry_inv {c} s" using i by (rule registry_inv_weaken) simp
  have a: "registry_inv {c} s1"
  proof (cases "mget (connToSub s) c")
    case None
    then show ?thesis using w by (simp add: s1_def)
  next
    case (Some ep)
    show ?thesis
    proof (cases "mget (subs s) ep")
      case None
      then show ?thesis using w Some by (simp add: s1_def)
    next
      case er: (Some er)
      then have l: "er < length (objs s)" "proxySubId (objs s ! er) = ep"
        using i by (auto simp: registry_inv_def inv_forward_def)
      have d: "deref s er = Some (objs s ! er)" using l by (simp add: deref_Some)
      have "registry_inv {c} (teardown s er)"
        using w d
      proof (rule registry_inv_teardown)
        fix c' assume "c' \<notin> {c}"
        then show "mget (connToSub s) c' \<noteq> Some (proxySubId (objs s ! er))"
          using conn_owner [OF i er, of c'] conn_owner [OF i er, of c] Some l by auto
      qed
      then show ?thesis using w Some er by (simp add: s1_def)
    qed
  qed
  have b: "map proxySubId (objs s1) = map proxySubId (objs s)"
    by (simp add: s1_def proxies_teardown split: option.splits)
  let ?new = "\<lparr>proxySubId = ''sub_'' @ uuid, connectionId = c, methodName = m, params = ps,
               heliusSubId = JNull, pendingPromise = False, cancelled = False,
               unsubscribeTimer = False\<rparr>"
  let ?s2 = "s1\<lparr>objs := objs s1 @ [?new],
                subs := mset (subs s1) (''sub_'' @ uuid) (length (objs s1)),
                connToSub := mset (connToSub s1) c (''sub_'' @ uuid)\<rparr>"
  let ?r = "length (objs s1)"
  let ?s3 = "modify (fst (request ?s2 m ps (SubscribeK ?r))) ?r (\<lambda>x. x\<lparr>pendingPromise := True\<rparr>)"
  have 2: "registry_inv {} ?s2"
    using a f b by (intro registry_inv_insert) simp_all
  have d3: "deref (fst (request ?s2 m ps (SubscribeK ?r))) ?r = Some ?new"
    by (simp add: deref_def)
  have 3: "registry_inv {} ?s3"
    using 2 by (intro registry_inv_modify [OF _ d3]) simp_all
  have e: "subscribe s c m ps uuid =
             (case snd (request ?s2 m ps (SubscribeK ?r)) of
                None \<Rightarrow> ?s3
              | Some err \<Rightarrow> subscribe_settled ?s3 ?r (Inl err))"
    unfolding subscribe_def s1_def Let_def ..
  show ?thesis
    unfolding e using 3 by (auto split: option.splits intro: registry_inv_subscribe_settled)
qed

lemma registry_inv_unsubscribe:
  assumes i: "registry_inv {} s"
  shows "registry_inv {} (fst (unsubscribe s p))"
proof (cases "mget (subs s) p")
  case None
  then show ?thesis using i by (simp add: unsubscribe_def)
next
  case (Some r)
  then have l: "r < length (objs s)" "proxySubId (objs s ! r) = p"
    using i by (auto simp: registry_inv_def inv_forward_def)
  let ?sub = "objs s ! r"
  let ?t = "s\<lparr>connToSub := mdelete (connToSub s) (connectionId ?sub)\<rparr>"
  have 1: "registry_inv {} ?t"
    using registry_inv_conn_delete [OF i, of "connectionId ?sub"] by simp
  have d: "deref ?t r = Some ?sub" using l by (simp add: deref_def)
  have n: "mget (connToSub ?t) c \<noteq> Some (proxySubId ?sub)" for c
    using conn_owner [OF i Some, of c] l by auto
  have "registry_inv {} (modify ?t r (\<lambda>x. x\<lparr>unsubscribeTimer := True\<rparr>))"
    using 1 d n by (intro registry_inv_modify [OF _ d]) simp_all
  then show ?thesis
    using Some l by (simp add: unsubscribe_def scheduleRemoval_def deref_def)
qed

lemma registry_inv_handleDisconnect:
  assumes i: "registry_inv {} s"
  shows "registry_inv {} (handleDisconnect s c)"
proof (cases "mget (connToSub s) c")
  case None
  then show ?thesis using i by (simp add: handleDisconnect_def)
next
  case (Some p)
  then obtain r where r: "mget (subs s) p = Some r"
    using i by (auto simp: registry_inv_def inv_conn_def)
  then have l: "r < length (objs s)" "proxySubId (objs s ! r) = p"
    using i by (auto simp: registry_inv_def inv_forward_def)
  have d: "deref s r = Some (objs s ! r)" using l by (simp add: deref_def)
  have w: "registry_inv {c} s" using i by (rule registry_inv_weaken) simp
  have n: "c' \<notin> {c} \<Longrightarrow> mget (connToSub s) c' \<noteq> Some (proxySubId (objs s ! r))" for c'
    using conn_owner [OF i r, of c'] conn_owner [OF i r, of c] Some l by auto
  have 1: "registry_inv {c} (modify s r (\<lambda>x. x\<lparr>unsubscribeTimer := True\<rparr>))"
    using w n by (intro registry_inv_modify [OF _ d]) simp_all
  have "registry_inv ({c} - {c})
          ((modify s r (\<lambda>x. x\<lparr>unsubscribeTimer := True\<rparr>))
             \<lparr>connToSub := mdelete (connToSub (modify s r (\<lambda>x. x\<lparr>unsubscribeTimer := True\<rparr>))) c\<rparr>)"
    using 1 by (rule registry_inv_conn_delete)
  moreover have "registry_inv ({c} - {c}) (s\<lparr>connToSub := mdelete (connToSub s) c\<rparr>)"
    using w by (rule registry_inv_conn_delete)
  ultimately show ?thesis
    using Some r i by (simp add: handleDisconnect_def scheduleRemoval_def Let_def)
qed

lemma registry_inv_clear_teardown:
  assumes i: "registry_inv {} s"
    and d: "deref s r = Some sub"
    and t: "unsubscribeTimer sub"
  shows "registry_inv {} (teardown (modify s r (\<lambda>x. x\<lparr>unsubscribeTimer := False\<rparr>)) r)"
proof -
  let ?s1 = "modify s r (\<lambda>x. x\<lparr>unsubscribeTimer := False\<rparr>)"
  have 1: "registry_inv {} ?s1"
    using i d by (rule registry_inv_modify) simp_all
  have d1: "deref ?s1 r = Some (sub\<lparr>unsubscribeTimer := False\<rparr>)" using d by simp
  show ?thesis
    using 1 d1
  proof (rule registry_inv_teardown)
    fix c show "mget (connToSub ?s1) c \<noteq> Some (proxySubId (sub\<lparr>unsubscribeTimer := False\<rparr>))"
      using armed_no_conn [OF i d t, of c] by simp
  qed
qed

lemma registry_inv_graceTimeout:
  "registry_inv {} s \<Longrightarrow> registry_inv {} (graceTimeout s r)"
  by (auto simp: graceTimeout_def registry_inv_clear_teardown split: option.splits)

lemma registry_inv_handleNotification [simp]:
  "registry_inv X (handleNotification s msg) = registry_inv X s"
  by (simp add: handleNotification_def Let_def split: option.splits)

lemma registry_inv_flags:
  assumes i: "registry_inv X s"
    and p: "\<And>x. proxySubId (f x) = proxySubId x"
    and c: "\<And>x. connectionId (f x) = connectionId x"
    and t: "\<And>x. unsubscribeTimer (f x) = unsubscribeTimer x"
    and d: "\<And>x. cancelled (f x) = cancelled x"
  shows "registry_inv X (modify s r f)"
proof (cases "deref s r")
  case None
  then show ?thesis using i by (simp add: modify_none)
next
  case (Some sub)
  show ?thesis
    using i Some by (rule registry_inv_modify) (simp_all add: p c t d)
qed

lemma registry_inv_reissue:
  "registry_inv X s \<Longrightarrow> registry_inv X (fst (reissue s r sub p j))"
  by (simp add: reissue_def registry_inv_flags)

lemma registry_inv_loop:
  "registry_inv {} s \<Longrightarrow> registry_inv {} (handleReconnected_loop s i)"
proof (induction s i rule: handleReconnected_loop.induct)
  case (1 s i)
  show ?case
  proof (cases "length (subs s) \<le> i")
    case True
    then show ?thesis using "1.prems" by (simp add: handleReconnected_loop.simps)
  next
    case False
    note n = False
    show ?thesis
    proof (cases "subs s ! i")
      case None
      then show ?thesis
        using n "1.IH"(1) "1.prems" by (subst handleReconnected_loop.simps) simp
    next
      case (Some e)
      obtain p r where e: "e = (p, r)" by (cases e)
      show ?thesis
      proof (cases "deref s r")
        case None
        then show ?thesis
          using n Some e "1.IH"(2) "1.prems" by (subst handleReconnected_loop.simps) simp
      next
        case d: (Some sub)
        show ?thesis
        proof (cases "unsubscribeTimer sub")
          case True
          have "registry_inv {} (teardown (modify s r (\<lambda>x. x\<lparr>unsubscribeTimer := False\<rparr>)) r)"
            using "1.prems" d True by (rule registry_inv_clear_teardown)
          then show ?thesis
            using n Some e d True "1.IH"(3) by (subst handleReconnected_loop.simps) simp
        next
          case False
          have a: "registry_inv {} (fst (reissue s r sub p (Suc i)))"
            using "1.prems" by (rule registry_inv_reissue)
          then have b: "registry_inv {}
                    (modify (fst (reissue s r sub p (Suc i))) r (\<lambda>x. x\<lparr>pendingPromise := False\<rparr>))"
            by (rule registry_inv_flags) simp_all
          show ?thesis
            using n Some e d False a b "1.IH"(4)
            by (subst handleReconnected_loop.simps) simp
        qed
      qed
    qed
  qed
qed

lemma registry_inv_resubscribe_settled:
  "registry_inv {} s \<Longrightarrow> registry_inv {} (resubscribe_settled s r p j out)"
  by (auto simp: resubscribe_settled_def registry_inv_flags intro!: registry_inv_loop split: sum.splits)

lemma registry_inv_settle:
  "registry_inv {} s \<Longrightarrow> registry_inv {} (settle s k out)"
  by (cases k) (simp_all add: registry_inv_subscribe_settled registry_inv_resubscribe_settled)

lemma registry_inv_step:
  assumes i: "registry_inv {} s" and f: "fresh s e"
  shows "registry_inv {} (step s e)"
proof (cases e)
  case (ClientMessage c d uuid)
  then have "''sub_'' @ uuid \<notin> set (map proxySubId (objs s))"
    using f by (simp add: fresh_def)
  then show ?thesis
    using i ClientMessage
    by (auto simp: handleRawMessage_def sendError_def registry_inv_subscribe registry_inv_unsubscribe
        split: option.splits ClientMessage.splits)
next
  case (ClientDisconnect c)
  then show ?thesis using i by (simp add: registry_inv_handleDisconnect)
next
  case (UpstreamMessage msg)
  then show ?thesis
    using i by (auto simp: registry_inv_settle split: classified.splits)
next
  case (RequestTimeout n)
  then show ?thesis
    using i by (auto simp: registry_inv_settle split: classified.splits)
next
  case (GraceTimeout r)
  then show ?thesis using i by (simp add: registry_inv_graceTimeout)
next
  case UpstreamOpen
  then show ?thesis using i by (simp add: handleReconnected_def registry_inv_loop)
next
  case UpstreamClose
  then show ?thesis using i by simp
next
  case ReconnectTimeout
  then show ?thesis using i by simp
qed

lemma registry_inv_run:
  "registry_inv {} s \<Longrightarrow> fresh_run s es \<Longrightarrow> registry_inv {} (run s es)"
  by (induction es arbitrary: s) (simp_all add: run_Nil run_Cons registry_inv_step)

lemma registry_inv_initial: "registry_inv {} initial"
  by (simp add: registry_inv_def inv_ids_def inv_forward_def inv_conn_def inv_cancelled_def initial_def)

lemma inv_reverse_frame [simp]:
  "inv_reverse (s\<lparr>up := u\<rparr>) = inv_reverse s"
  "inv_reverse (s\<lparr>outbox := ob\<rparr>) = inv_reverse s"
  "inv_reverse (s\<lparr>subs := m\<rparr>) = inv_reverse s"
  "inv_reverse (s\<lparr>connToSub := cs\<rparr>) = inv_reverse s"
  by (simp_all add: inv_reverse_def)

lemma inv_reverse_request [simp]: "inv_reverse (fst (request s m ps k)) = inv_reverse s"
  by (simp add: request_def)

lemma inv_reverse_send [simp]: "inv_reverse (send s c msg) = inv_reverse s"
  by (simp add: send_def)










lemma reverse_teardown_subset:
  "mget (heliusIdToProxy (teardown s r)) h = Some p \<Longrightarrow> mget (heliusIdToProxy s) h = Some p"
  by (auto simp: teardown_def Let_def split: option.splits if_splits)





lemma inv_reverse_handleNotification [simp]:
  "inv_reverse (handleNotification s msg) = inv_reverse s"
  by (simp add: handleNotification_def Let_def split: option.splits)

lemma inv_pending_sendRequest:
  "inv_pending u \<Longrightarrow> \<not> is_resubscribe k \<Longrightarrow> inv_pending (fst (sendRequest u m ps k))"
  by (auto simp: inv_pending_def sendRequest_def split: if_splits)

lemma inv_pending_request:
  "inv_pending (up s) \<Longrightarrow> \<not> is_resubscribe k \<Longrightarrow> inv_pending (up (fst (request s m ps k)))"
  by (simp add: inv_pending_sendRequest)






lemma up_removeSub [simp]: "up (removeSub s p) = up s"
  by (simp add: removeSub_def split: option.splits)

lemma up_send [simp]: "up (send s c msg) = up s"
  by (simp add: send_def)



lemma up_unsubscribe [simp]: "up (fst (unsubscribe s p)) = up s"
  by (simp add: unsubscribe_def scheduleRemoval_def split: option.splits)

lemma up_handleDisconnect [simp]: "up (handleDisconnect s c) = up s"
  by (simp add: handleDisconnect_def scheduleRemoval_def Let_def split: option.splits)

lemma up_handleNotification [simp]: "up (handleNotification s msg) = up s"
  by (simp add: handleNotification_def Let_def split: option.splits)





lemma reverse_inv_connected: "reverse_inv (step initial UpstreamOpen)"
  by (simp add: reverse_inv_def inv_reverse_def inv_pending_def eval_defs)


section \<open>Resynchronisation after a reconnect\<close>

subsection \<open>Entries of a Map by position\<close>

lemma live_drop_None:
  "i < length m \<Longrightarrow> m ! i = None \<Longrightarrow> live (drop i m) = live (drop (Suc i) m)"
  by (simp add: Cons_nth_drop_Suc [symmetric])

lemma live_drop_Some:
  "i < length m \<Longrightarrow> m ! i = Some e \<Longrightarrow> live (drop i m) = e # live (drop (Suc i) m)"
  by (simp add: Cons_nth_drop_Suc [symmetric])

lemma live_take_Suc:
  "i < length m \<Longrightarrow>
     live (take (Suc i) m) = live (take i m) @ (case m ! i of None \<Rightarrow> [] | Some e \<Rightarrow> [e])"
  by (simp add: take_Suc_conv_app_nth split: option.splits)

lemma live_mdelete_absent: "k \<notin> fst ` set (live m) \<Longrightarrow> live (mdelete m k) = live m"
  by (induction m) (auto simp: mdelete_def split: option.splits)

lemma drop_mdelete: "drop i (mdelete m k) = mdelete (drop i m) k"
  by (simp add: mdelete_def drop_map)

lemma take_mdelete: "take i (mdelete m k) = mdelete (take i m) k"
  by (simp add: mdelete_def take_map)

lemma live_split:
  "i < length m \<Longrightarrow> m ! i = Some e \<Longrightarrow> live m = live (take i m) @ e # live (drop (Suc i) m)"
  using id_take_nth_drop [of i m] live_append [of "take i m" "m ! i # drop (Suc i) m"]
  by simp

lemma distinct_keys_at:
  assumes d: "distinct (map fst (live m))" and i: "i < length m" and e: "m ! i = Some (p, r)"
  shows "p \<notin> fst ` set (live (take i m))" and "p \<notin> fst ` set (live (drop (Suc i) m))"
    and "mget m p = Some r"
proof -
  have s: "live m = live (take i m) @ (p, r) # live (drop (Suc i) m)"
    using i e by (rule live_split)
  show a: "p \<notin> fst ` set (live (take i m))" using d unfolding s by auto
  show "p \<notin> fst ` set (live (drop (Suc i) m))" using d unfolding s by auto
  show "mget m p = Some r"
    using a unfolding mget_def s by (simp add: map_add_Some_iff map_of_eq_None_iff)
qed

lemma live_mset_new: "k \<notin> fst ` set (live m) \<Longrightarrow> live (mset m k v) = live m @ [(k, v)]"
  by (simp add: mset_def mget_def map_of_eq_None_iff)

lemma live_mclear [simp]: "live (mclear m) = []"
  by (induction m) (simp_all add: mclear_def)

lemma keys_mdelete: "fst ` set (live (mdelete m k)) = fst ` set (live m) - {k}"
  by (induction m) (auto simp: mdelete_def split: option.splits)

lemma distinct_mdelete: "distinct (map fst (live m)) \<Longrightarrow> distinct (map fst (live (mdelete m k)))"
proof (induction m)
  case Nil
  then show ?case by (simp add: mdelete_def)
next
  case (Cons e m)
  have c: "mdelete (e # m) k =
             (case e of None \<Rightarrow> None | Some (k', v) \<Rightarrow> if k' = k then None else Some (k', v)) # mdelete m k"
    by (simp add: mdelete_def)
  show ?case
    using Cons keys_mdelete [of m k] unfolding c by (force split: option.splits)
qed


subsection \<open>The forward table keeps its keys unique\<close>

lemma unique_keys_Nil [simp]: "unique_keys []"
  by (simp add: unique_keys_def)

lemma unique_keys_mdelete [simp]: "unique_keys m \<Longrightarrow> unique_keys (mdelete m k)"
  unfolding unique_keys_def by (rule distinct_mdelete)

lemma keys_update_in_place:
  "map fst (live (map (\<lambda>e. case e of None \<Rightarrow> None
                            | Some (k', v') \<Rightarrow> if k' = k then Some (k, v) else Some (k', v')) m)) =
     map fst (live m)"
  by (induction m) (auto split: option.splits)

lemma unique_keys_mset [simp]: "unique_keys m \<Longrightarrow> unique_keys (mset m k v)"
  by (auto simp: unique_keys_def mset_def keys_update_in_place mget_def map_of_eq_None_iff)

lemma unique_keys_teardown [simp]: "unique_keys (subs s) \<Longrightarrow> unique_keys (subs (teardown s r))"
  by (simp add: subs_teardown split: option.splits)

lemma unique_keys_removeSub [simp]: "unique_keys (subs s) \<Longrightarrow> unique_keys (subs (removeSub s p))"
  by (simp add: removeSub_def split: option.splits)

lemma subs_send [simp]: "subs (send s c x) = subs s"
  by (simp add: send_def)

lemma unique_keys_subscribe_settled [simp]:
  "unique_keys (subs s) \<Longrightarrow> unique_keys (subs (subscribe_settled s r out))"
  by (simp add: subscribe_settled_def split: option.splits sum.splits)

lemma unique_keys_subscribe [simp]:
  "unique_keys (subs s) \<Longrightarrow> unique_keys (subs (subscribe s c m ps uuid))"
  by (simp add: subscribe_def Let_def split: option.splits)

lemma subs_unsubscribe [simp]: "subs (fst (unsubscribe s p)) = subs s"
  by (simp add: unsubscribe_def scheduleRemoval_def split: option.splits)

lemma subs_handleDisconnect [simp]: "subs (handleDisconnect s c) = subs s"
  by (simp add: handleDisconnect_def scheduleRemoval_def Let_def split: option.splits)

lemma subs_handleNotification [simp]: "subs (handleNotification s msg) = subs s"
  by (simp add: handleNotification_def Let_def split: option.splits)

lemma unique_keys_graceTimeout [simp]:
  "unique_keys (subs s) \<Longrightarrow> unique_keys (subs (graceTimeout s r))"
  by (simp add: graceTimeout_def split: option.splits)

lemma unique_keys_loop:
  "unique_keys (subs s) \<Longrightarrow> unique_keys (subs (handleReconnected_loop s i))"
proof (induction s i rule: handleReconnected_loop.induct)
  case (1 s i)
  show ?case
    using "1.prems" by (subst handleReconnected_loop.simps) (auto simp: 1 split: option.splits)
qed

lemma unique_keys_settle:
  "unique_keys (subs s) \<Longrightarrow> unique_keys (subs (settle s k out))"
  by (cases k) (simp_all add: resubscribe_settled_def unique_keys_loop split: sum.splits)

lemma unique_keys_handleRawMessage:
  "unique_keys (subs s) \<Longrightarrow> unique_keys (subs (handleRawMessage s c d uuid))"
  by (simp add: handleRawMessage_def sendError_def split: option.splits ClientMessage.splits)

lemma unique_keys_step: "unique_keys (subs s) \<Longrightarrow> unique_keys (subs (step s e))"
proof (cases e)
  case UpstreamOpen
  assume "unique_keys (subs s)"
  then show ?thesis using UpstreamOpen by (simp add: handleReconnected_def unique_keys_loop)
qed (simp_all add: unique_keys_settle unique_keys_handleRawMessage split: classified.splits)

lemma unique_keys_run: "unique_keys (subs s) \<Longrightarrow> unique_keys (subs (run s es))"
  by (induction es arbitrary: s) (simp_all add: run_Nil run_Cons unique_keys_step)

lemma unique_keys_initial: "unique_keys (subs initial)"
  by (simp add: initial_def)

lemma reverse_teardown_empty:
  "live (heliusIdToProxy s) = [] \<Longrightarrow> live (heliusIdToProxy (teardown s r)) = []"
  by (simp add: teardown_def Let_def live_mdelete_absent split: option.splits)

lemma reverse_reissue [simp]: "heliusIdToProxy (fst (reissue s r sub p j)) = heliusIdToProxy s"
  by (simp add: reissue_def)

lemma reverse_loop_empty:
  "live (heliusIdToProxy s) = [] \<Longrightarrow> live (heliusIdToProxy (handleReconnected_loop s i)) = []"
proof (induction s i rule: handleReconnected_loop.induct)
  case (1 s i)
  show ?case
    using "1.prems"
    by (subst handleReconnected_loop.simps)
      (auto simp: 1 reverse_teardown_empty split: option.splits)
qed


subsection \<open>One turn of the resync loop\<close>

lemma loop_end: "length (subs s) \<le> i \<Longrightarrow> handleReconnected_loop s i = s"
  by (simp add: handleReconnected_loop.simps)

lemma loop_None:
  "i < length (subs s) \<Longrightarrow> subs s ! i = None \<Longrightarrow>
     handleReconnected_loop s i = handleReconnected_loop s (Suc i)"
  by (subst handleReconnected_loop.simps) simp

lemma loop_armed:
  "i < length (subs s) \<Longrightarrow> subs s ! i = Some (p, r) \<Longrightarrow> deref s r = Some sub \<Longrightarrow>
   unsubscribeTimer sub \<Longrightarrow>
     handleReconnected_loop s i =
       handleReconnected_loop (teardown (modify s r (\<lambda>x. x\<lparr>unsubscribeTimer := False\<rparr>)) r) (Suc i)"
  by (subst handleReconnected_loop.simps) simp

lemma snd_reissue: "snd (reissue s r sub p j) = snd (sendRequest (up s) (methodName sub) (params sub) (ResubscribeK r p j))"
  by (simp add: reissue_def)

lemma loop_reissue:
  "i < length (subs s) \<Longrightarrow> subs s ! i = Some (p, r) \<Longrightarrow> deref s r = Some sub \<Longrightarrow>
   \<not> unsubscribeTimer sub \<Longrightarrow> ws (up s) = Some OPEN \<Longrightarrow>
     handleReconnected_loop s i = fst (reissue s r sub p (Suc i))"
  by (subst handleReconnected_loop.simps) (simp add: snd_reissue sendRequest_def)

lemma up_reissue:
  "ws (up s) = Some OPEN \<Longrightarrow>
     up (fst (reissue s r sub p j)) =
       (up s)\<lparr>rpcId := rpcId (up s) + 1,
              pending := mset (pending (up s)) (rpcId (up s)) \<lparr>handler = ResubscribeK r p j, timer = 30000\<rparr>,
              wire := wire (up s) @ [(rpcId (up s), methodName sub, params sub)]\<rparr>"
  by (simp add: reissue_def sendRequest_def)

lemma answer_reissue:
  assumes o: "ws (up s) = Some OPEN"
  shows "step (fst (reissue s r sub p j)) (answer_event (rpcId (up (fst (reissue s r sub p j))) - 1) a) =
           handleReconnected_loop (after_answer s r sub p j a) j"
proof -
  let ?q = "fst (reissue s r sub p j)"
  have u: "up ?q = (up s)\<lparr>rpcId := rpcId (up s) + 1,
              pending := mset (pending (up s)) (rpcId (up s)) \<lparr>handler = ResubscribeK r p j, timer = 30000\<rparr>,
              wire := wire (up s) @ [(rpcId (up s), methodName sub, params sub)]\<rparr>"
    using o by (rule up_reissue)
  have i: "rpcId (up ?q) - 1 = rpcId (up s)" by (simp add: u)
  have g: "mget (pending (up ?q)) (rpcId (up s)) = Some \<lparr>handler = ResubscribeK r p j, timer = 30000\<rparr>"
    by (simp add: u)
  show ?thesis
    unfolding i
    by (cases a)
      (simp_all add: g handleMessage_def fireTimeout_def resubscribe_settled_def after_answer_def Let_def)
qed

lemma after_answer_parts:
  assumes d: "deref s r = Some sub" and o: "ws (up s) = Some OPEN"
  shows "objs (after_answer s r sub p j a) = (objs s)[r := resynced sub a]"
    and "subs (after_answer s r sub p j a) = subs s"
    and "wire (up (after_answer s r sub p j a)) = wire (up s) @ [(rpcId (up s), methodName sub, params sub)]"
    and "ws (up (after_answer s r sub p j a)) = Some OPEN"
    and "heliusIdToProxy (after_answer s r sub p j a) =
           (case resolved a of None \<Rightarrow> heliusIdToProxy s | Some h \<Rightarrow> mset (heliusIdToProxy s) h p)"
proof -
  have l: "r < length (objs s)" "objs s ! r = sub" using d by (simp_all add: deref_Some)
  show "objs (after_answer s r sub p j a) = (objs s)[r := resynced sub a]"
    using l by (simp add: after_answer_def Let_def reissue_def modify_def request_def resynced_def
        split: option.splits)
  show "subs (after_answer s r sub p j a) = subs s"
    by (simp add: after_answer_def Let_def split: option.splits)
  show "wire (up (after_answer s r sub p j a)) = wire (up s) @ [(rpcId (up s), methodName sub, params sub)]"
    using o by (simp add: after_answer_def Let_def up_reissue split: option.splits)
  show "ws (up (after_answer s r sub p j a)) = Some OPEN"
    using o by (simp add: after_answer_def Let_def up_reissue split: option.splits)
  show "heliusIdToProxy (after_answer s r sub p j a) =
           (case resolved a of None \<Rightarrow> heliusIdToProxy s | Some h \<Rightarrow> mset (heliusIdToProxy s) h p)"
    by (simp add: after_answer_def Let_def reissue_def split: option.splits)
qed

lemma objs_teardown:
  assumes d: "deref s r = Some sub"
  shows "objs (teardown s r) = (objs s)[r := torn_down sub]"
proof -
  have l: "r < length (objs s)" "objs s ! r = sub" using d by (simp_all add: deref_Some)
  show ?thesis
  proof (cases "pendingPromise sub")
    case True
    then show ?thesis
      using l by (simp add: teardown_def d Let_def objs_modify torn_down_def)
  next
    case False
    then show ?thesis
      using l by (simp add: teardown_def d Let_def objs_modify torn_down_def split: option.splits)
  qed
qed

lemma teardown_armed_parts:
  assumes d: "deref s r = Some sub" and t: "unsubscribeTimer sub" and o: "ws (up s) = Some OPEN"
  shows "objs (teardown (modify s r (\<lambda>x. x\<lparr>unsubscribeTimer := False\<rparr>)) r) = (objs s)[r := torn_down sub]"
    and "subs (teardown (modify s r (\<lambda>x. x\<lparr>unsubscribeTimer := False\<rparr>)) r) = mdelete (subs s) (proxySubId sub)"
    and "wire (up (teardown (modify s r (\<lambda>x. x\<lparr>unsubscribeTimer := False\<rparr>)) r)) =
           wire (up s) @ (case resync_request sub of None \<Rightarrow> [] | Some y \<Rightarrow> [(rpcId (up s), y)])"
    and "ws (up (teardown (modify s r (\<lambda>x. x\<lparr>unsubscribeTimer := False\<rparr>)) r)) = Some OPEN"
    and "heliusSubId sub \<notin> fst ` set (live (heliusIdToProxy s)) \<Longrightarrow>
           live (heliusIdToProxy (teardown (modify s r (\<lambda>x. x\<lparr>unsubscribeTimer := False\<rparr>)) r)) =
             live (heliusIdToProxy s)"
proof -
  let ?m = "modify s r (\<lambda>x. x\<lparr>unsubscribeTimer := False\<rparr>)"
  have l: "r < length (objs s)" "objs s ! r = sub" using d by (simp_all add: deref_Some)
  have dm: "deref ?m r = Some (sub\<lparr>unsubscribeTimer := False\<rparr>)" using d by simp
  show "objs (teardown ?m r) = (objs s)[r := torn_down sub]"
    using l by (simp add: objs_teardown [OF dm] objs_modify torn_down_def)
  show "subs (teardown ?m r) = mdelete (subs s) (proxySubId sub)"
    by (simp add: subs_teardown d)
  show "wire (up (teardown ?m r)) =
           wire (up s) @ (case resync_request sub of None \<Rightarrow> [] | Some y \<Rightarrow> [(rpcId (up s), y)])"
    using t o by (simp add: teardown_def d Let_def resync_request_def sendRequest_def split: option.splits)
  show "ws (up (teardown ?m r)) = Some OPEN"
    using o by (simp add: teardown_def d Let_def sendRequest_def split: option.splits)
  show "live (heliusIdToProxy (teardown ?m r)) = live (heliusIdToProxy s)"
    if "heliusSubId sub \<notin> fst ` set (live (heliusIdToProxy s))"
    using that by (simp add: teardown_def d Let_def live_mdelete_absent split: option.splits)
qed


subsection \<open>The loop, entry by entry\<close>

lemma fates_cong:
  "(\<And>e. e \<in> set es \<Longrightarrow> unsubscribeTimer (os ! snd e) = unsubscribeTimer (os' ! snd e)) \<Longrightarrow>
     fates os es as = fates os' es as"
proof (induction es arbitrary: as)
  case Nil
  then show ?case by simp
next
  case (Cons e es)
  obtain p r where e: "e = (p, r)" by (cases e)
  have 1: "unsubscribeTimer (os ! r) = unsubscribeTimer (os' ! r)"
    using Cons.prems [of e] by (simp add: e)
  have 2: "fates os es bs = fates os' es bs" for bs
    by (rule Cons.IH) (simp add: Cons.prems)
  show ?case by (simp add: e 1 2 split: list.splits)
qed

lemma map_filter_cong':
  "(\<And>x. x \<in> set xs \<Longrightarrow> f x = g x) \<Longrightarrow> List.map_filter f xs = List.map_filter g xs"
  by (induction xs) (auto simp: List.map_filter_simps split: option.splits)

lemma map2_cong':
  "(\<And>x y. x \<in> set xs \<Longrightarrow> f x y = g x y) \<Longrightarrow> map2 f xs ys = map2 g xs ys"
  by (induction xs arbitrary: ys) (auto split: list.splits simp: zip_Cons1 dest: set_zip_leftD)

lemma set_live_drop: "set (live (drop i m)) \<subseteq> set (live m)"
  using live_append [of "take i m" "drop i m"] by auto

lemma entry_ref:
  assumes f: "inv_forward t" and d: "distinct (map fst (live (subs t)))"
    and e: "e \<in> set (live (subs t))"
  shows "snd e < length (objs t) \<and> proxySubId (objs t ! snd e) = fst e"
proof -
  have "map_of (live (subs t)) (fst e) = Some (snd e)"
    using d e by (intro map_of_is_SomeI) simp_all
  then show ?thesis using f by (simp add: inv_forward_def mget_def)
qed

lemma rest_refs:
  assumes f: "inv_forward t" and d: "distinct (map fst (live (subs t)))"
    and i: "i < length (subs t)" and s: "subs t ! i = Some (p, r)"
    and e: "e \<in> set (live (drop (Suc i) (subs t)))"
  shows "snd e \<noteq> r" and "snd e < length (objs t)"
proof -
  have m: "e \<in> set (live (subs t))" using e set_live_drop by blast
  have n: "(p, r) \<in> set (live (subs t))" using live_split [OF i s] by simp
  have "fst e \<noteq> p" using distinct_keys_at(2) [OF d i s] e by auto
  then show "snd e \<noteq> r"
    using entry_ref [OF f d m] entry_ref [OF f d n] by auto
  show "snd e < length (objs t)" using entry_ref [OF f d m] by simp
qed

lemma resync_result_step:
  assumes i: "i < length (subs t)" and s: "subs t ! i = Some (p, r)"
    and f: "inv_forward t" and d: "distinct (map fst (live (subs t)))"
    and o: "objs t' = (objs t)[r := fate_object (objs t ! r) x]"
    and m: "subs t' = (if x = TornDown then mdelete (subs t) p else subs t)"
    and w: "wire (up t') =
              wire (up t) @ (case resync_request (objs t ! r) of None \<Rightarrow> [] | Some y \<Rightarrow> [(n, y)])"
    and h: "live (heliusIdToProxy t') = live (heliusIdToProxy t) @ fate_reverse p x"
    and a: "fates (objs t) ((p, r) # live (drop (Suc i) (subs t))) as =
              x # fates (objs t) (live (drop (Suc i) (subs t))) as'"
    and x: "(x = TornDown) = unsubscribeTimer (objs t ! r)"
    and ih: "resync_result t' (Suc i) as' u"
  shows "resync_result t i as u"
proof -
  let ?R = "live (drop (Suc i) (subs t))"
  have rest: "live (drop i (subs t)) = (p, r) # ?R"
    using i s by (rule live_drop_Some)
  have n: "(p, r) \<in> set (live (subs t))" using live_split [OF i s] by simp
  have r: "r < length (objs t)" using entry_ref [OF f d n] by simp
  have refs: "snd e \<noteq> r \<and> snd e < length (objs t)" if "e \<in> set ?R" for e
    using rest_refs [OF f d i s that] by simp
  have same: "objs t' ! snd e = objs t ! snd e" if "e \<in> set ?R" for e
    using refs [OF that] by (simp add: o)
  have at: "objs t' ! r = fate_object (objs t ! r) x" using r by (simp add: o)
  have len: "length (objs t') = length (objs t)" by (simp add: o)
  have nk: "p \<notin> fst ` set (live (take i (subs t)))" "p \<notin> fst ` set ?R"
    using distinct_keys_at [OF d i s] by simp_all
  have R': "live (drop (Suc i) (subs t')) = ?R"
    using nk by (simp add: m drop_mdelete live_mdelete_absent)
  have tk: "take (Suc i) (subs t) = take i (subs t) @ [Some (p, r)]"
    using i s by (simp add: take_Suc_conv_app_nth)
  have T': "live (take (Suc i) (subs t')) =
              live (take i (subs t)) @ (if x = TornDown then [] else [(p, r)])"
  proof (cases "x = TornDown")
    case True
    have "take (Suc i) (subs t') = mdelete (take i (subs t)) p @ [None]"
      using True by (simp add: m take_mdelete tk) (simp add: mdelete_def)
    then show ?thesis using True nk by (simp add: live_mdelete_absent)
  next
    case False
    then show ?thesis by (simp add: m tk)
  qed
  have fs: "fates (objs t') ?R as' = fates (objs t) ?R as'"
    by (rule fates_cong) (simp add: same)
  have 1: "live (subs u) =
             live (take (Suc i) (subs t')) @ filter (\<lambda>e. \<not> unsubscribeTimer (objs t' ! snd e)) ?R"
    and 2: "\<exists>w. wire (up u) = wire (up t') @ w
              \<and> map snd w = List.map_filter (\<lambda>e. resync_request (objs t' ! snd e)) ?R"
    and 3: "map (\<lambda>e. objs u ! snd e) ?R =
              map2 (\<lambda>e f. fate_object (objs t' ! snd e) f) ?R (fates (objs t') ?R as')"
    and 4: "length (objs u) = length (objs t')"
    and 5: "\<And>k. k \<notin> snd ` set ?R \<Longrightarrow> objs u ! k = objs t' ! k"
    and 6: "live (heliusIdToProxy u) =
              live (heliusIdToProxy t') @
                concat (map2 (\<lambda>e f. fate_reverse (fst e) f) ?R (fates (objs t') ?R as'))"
    using ih unfolding resync_result_def R' by blast+
  have c1: "filter (\<lambda>e. \<not> unsubscribeTimer (objs t' ! snd e)) ?R =
            filter (\<lambda>e. \<not> unsubscribeTimer (objs t ! snd e)) ?R"
    by (rule filter_cong) (simp_all add: same)
  have c2: "List.map_filter (\<lambda>e. resync_request (objs t' ! snd e)) ?R =
            List.map_filter (\<lambda>e. resync_request (objs t ! snd e)) ?R"
    by (rule map_filter_cong') (simp add: same)
  have c3: "map2 (\<lambda>e f. fate_object (objs t' ! snd e) f) ?R (fates (objs t) ?R as') =
            map2 (\<lambda>e f. fate_object (objs t ! snd e) f) ?R (fates (objs t) ?R as')"
    by (rule map2_cong') (simp add: same)
  have nr: "r \<notin> snd ` set ?R" using refs by auto
  have A: "live (subs u) =
       live (take i (subs t)) @ filter (\<lambda>e. \<not> unsubscribeTimer (objs t ! snd e)) (live (drop i (subs t)))"
    using x by (simp add: 1 T' c1 rest)
  obtain w' where w': "wire (up u) = wire (up t') @ w'"
      "map snd w' = List.map_filter (\<lambda>e. resync_request (objs t ! snd e)) ?R"
    using 2 c2 by auto
  have B: "\<exists>w. wire (up u) = wire (up t) @ w
          \<and> map snd w = List.map_filter (\<lambda>e. resync_request (objs t ! snd e)) (live (drop i (subs t)))"
    by (rule exI [of _ "(case resync_request (objs t ! r) of None \<Rightarrow> [] | Some y \<Rightarrow> [(n, y)]) @ w'"])
      (simp add: w' w rest List.map_filter_simps split: option.splits)
  have C: "map (\<lambda>e. objs u ! snd e) (live (drop i (subs t))) =
       map2 (\<lambda>e f. fate_object (objs t ! snd e) f) (live (drop i (subs t)))
         (fates (objs t) (live (drop i (subs t))) as)"
    unfolding rest a using 5 [OF nr] by (simp add: 3 fs c3 at)
  have D: "length (objs u) = length (objs t)" by (simp add: 4 len)
  have E: "\<forall>k. k \<notin> snd ` set (live (drop i (subs t))) \<longrightarrow> objs u ! k = objs t ! k"
  proof (intro allI impI)
    fix k assume "k \<notin> snd ` set (live (drop i (subs t)))"
    then have "k \<noteq> r" "k \<notin> snd ` set ?R" by (auto simp: rest)
    then show "objs u ! k = objs t ! k" using 5 [of k] by (simp add: o)
  qed
  have F: "live (heliusIdToProxy u) =
       live (heliusIdToProxy t) @
         concat (map2 (\<lambda>e f. fate_reverse (fst e) f) (live (drop i (subs t)))
                   (fates (objs t) (live (drop i (subs t))) as))"
    unfolding rest a by (simp add: 6 h fs)
  show ?thesis
    unfolding resync_result_def using A B C D E F by blast
qed


lemma carry:
  assumes i: "i < length (subs t)" and s: "subs t ! i = Some (p, r)"
    and f: "inv_forward t" and d: "distinct (map fst (live (subs t)))"
    and o: "objs t' = (objs t)[r := y]" and y: "proxySubId y = p"
    and m: "subs t' = mdelete (subs t) p \<or> subs t' = subs t"
  shows "inv_forward t'" and "distinct (map fst (live (subs t')))"
    and "live (drop (Suc i) (subs t')) = live (drop (Suc i) (subs t))"
    and "\<And>e. e \<in> set (live (drop (Suc i) (subs t))) \<Longrightarrow> objs t' ! snd e = objs t ! snd e"
    and "length (subs t') = length (subs t)"
proof -
  have n: "(p, r) \<in> set (live (subs t))" using live_split [OF i s] by simp
  have r: "r < length (objs t)" "proxySubId (objs t ! r) = p"
    using entry_ref [OF f d n] by simp_all
  have g: "mget (subs t) k = Some v" if "mget (subs t') k = Some v" for k v
    using m that by (auto simp: mget_mdelete split: if_splits)
  show "inv_forward t'"
    unfolding inv_forward_def
  proof (intro allI impI)
    fix k v assume "mget (subs t') k = Some v"
    then have "mget (subs t) k = Some v" by (rule g)
    then have "v < length (objs t) \<and> proxySubId (objs t ! v) = k"
      using f by (simp add: inv_forward_def)
    then show "v < length (objs t') \<and> proxySubId (objs t' ! v) = k"
      using r y by (cases "v = r") (simp_all add: o)
  qed
  show "distinct (map fst (live (subs t')))"
    using m d distinct_mdelete by auto
  have nk: "p \<notin> fst ` set (live (drop (Suc i) (subs t)))"
    using distinct_keys_at [OF d i s] by simp
  show "live (drop (Suc i) (subs t')) = live (drop (Suc i) (subs t))"
    using m nk by (auto simp: drop_mdelete live_mdelete_absent)
  show "objs t' ! snd e = objs t ! snd e" if "e \<in> set (live (drop (Suc i) (subs t)))" for e
    using rest_refs [OF f d i s that] by (simp add: o)
  show "length (subs t') = length (subs t)"
    using m by (auto simp: mdelete_def)
qed

lemma resync_result_skip:
  assumes i: "i < length (subs t)" and s: "subs t ! i = None"
    and ih: "resync_result t (Suc i) as u"
  shows "resync_result t i as u"
  using ih unfolding resync_result_def live_drop_None [OF i s]
  by (simp add: live_take_Suc [OF i] s)

lemma resync_result_end:
  assumes i: "length (subs t) \<le> i"
  shows "resync_result t i as t"
  using i by (simp add: resync_result_def)

lemma resync_loop:
  assumes "length (subs t) - i = k"
    and "inv_forward t" and "distinct (map fst (live (subs t)))" and "ws (up t) = Some OPEN"
    and "length as =
           length (filter (\<lambda>e. \<not> unsubscribeTimer (objs t ! snd e)) (live (drop i (subs t))))"
    and "distinct (List.map_filter resolved as)"
    and "set (List.map_filter resolved as) \<inter> fst ` set (live (heliusIdToProxy t)) = {}"
    and "\<And>e. e \<in> set (live (drop i (subs t))) \<Longrightarrow> unsubscribeTimer (objs t ! snd e) \<Longrightarrow>
            heliusSubId (objs t ! snd e) \<notin>
              fst ` set (live (heliusIdToProxy t)) \<union> set (List.map_filter resolved as)"
  shows "resync_result t i as (resync_answers (handleReconnected_loop t i) as)"
  using assms
proof (induction k arbitrary: t i as)
  case 0
  then have e: "length (subs t) \<le> i" by simp
  then have "as = []" using "0.prems"(5) by simp
  then show ?case using e by (simp add: loop_end resync_result_end)
next
  case (Suc k)
  note f = Suc.prems(2) and d = Suc.prems(3) and o = Suc.prems(4) and n = Suc.prems(5)
    and dn = Suc.prems(6) and nk = Suc.prems(7) and st = Suc.prems(8)
  have i: "i < length (subs t)" using Suc.prems(1) by simp
  show ?case
  proof (cases "subs t ! i")
    case None
    have "resync_result t (Suc i) as (resync_answers (handleReconnected_loop t (Suc i)) as)"
    proof (rule Suc.IH [OF _ f d o _ dn nk])
      show "length (subs t) - Suc i = k" using Suc.prems(1) by simp
      show "length as = length (filter (\<lambda>e. \<not> unsubscribeTimer (objs t ! snd e))
              (live (drop (Suc i) (subs t))))"
        using n by (simp add: live_drop_None [OF i None])
      show "heliusSubId (objs t ! snd e) \<notin>
              fst ` set (live (heliusIdToProxy t)) \<union> set (List.map_filter resolved as)"
        if "e \<in> set (live (drop (Suc i) (subs t)))" "unsubscribeTimer (objs t ! snd e)" for e
        using st [of e] that by (simp add: live_drop_None [OF i None])
    qed
    then show ?thesis
      by (simp add: loop_None [OF i None] resync_result_skip [OF i None])
  next
    case (Some e)
    obtain p r where s: "subs t ! i = Some (p, r)" using Some by (cases e) simp
    let ?R = "live (drop (Suc i) (subs t))"
    let ?sub = "objs t ! r"
    have rest: "live (drop i (subs t)) = (p, r) # ?R" using i s by (rule live_drop_Some)
    have m: "(p, r) \<in> set (live (subs t))" using live_split [OF i s] by simp
    have r: "r < length (objs t)" "proxySubId ?sub = p" using entry_ref [OF f d m] by simp_all
    have de: "deref t r = Some ?sub" using r by (simp add: deref_Some)
    show ?thesis
    proof (cases "unsubscribeTimer ?sub")
      case True
      let ?t = "teardown (modify t r (\<lambda>x. x\<lparr>unsubscribeTimer := False\<rparr>)) r"
      have stale: "heliusSubId ?sub \<notin> fst ` set (live (heliusIdToProxy t))"
        using st [of "(p, r)"] True by (simp add: rest)
      note P = teardown_armed_parts [OF de True o]
      have rv: "live (heliusIdToProxy ?t) = live (heliusIdToProxy t)" using P(5) stale by simp
      have po: "proxySubId (torn_down ?sub) = p" using r by (simp add: torn_down_def)
      have sm: "subs ?t = mdelete (subs t) p \<or> subs ?t = subs t" using P(2) r by simp
      note C = carry [OF i s f d P(1) po sm]
      have ih: "resync_result ?t (Suc i) as (resync_answers (handleReconnected_loop ?t (Suc i)) as)"
      proof (rule Suc.IH [OF _ C(1) C(2) P(4) _ dn])
        show "length (subs ?t) - Suc i = k" using Suc.prems(1) by (simp add: C(5))
        have "filter (\<lambda>e. \<not> unsubscribeTimer (objs ?t ! snd e)) ?R =
              filter (\<lambda>e. \<not> unsubscribeTimer (objs t ! snd e)) ?R"
          by (rule filter_cong) (simp_all add: C(4))
        then show "length as = length (filter (\<lambda>e. \<not> unsubscribeTimer (objs ?t ! snd e))
                (live (drop (Suc i) (subs ?t))))"
          using n True by (simp add: C(3) rest)
        show "set (List.map_filter resolved as) \<inter> fst ` set (live (heliusIdToProxy ?t)) = {}"
          using nk by (simp add: rv)
        show "heliusSubId (objs ?t ! snd e) \<notin>
                fst ` set (live (heliusIdToProxy ?t)) \<union> set (List.map_filter resolved as)"
          if "e \<in> set (live (drop (Suc i) (subs ?t)))" "unsubscribeTimer (objs ?t ! snd e)" for e
        proof -
          have 1: "e \<in> set ?R" using that(1) by (simp add: C(3))
          then show ?thesis using st [of e] that(2) by (simp add: C(4) rv rest)
        qed
      qed
      have "resync_result t i as (resync_answers (handleReconnected_loop ?t (Suc i)) as)"
      proof (rule resync_result_step [OF i s f d _ _ _ _ _ _ ih, where x = TornDown and n = "rpcId (up t)"])
        show "objs ?t = (objs t)[r := fate_object ?sub TornDown]"
          by (simp add: P(1) fate_object_def)
        show "subs ?t = (if TornDown = TornDown then mdelete (subs t) p else subs t)"
          using P(2) r by simp
        show "wire (up ?t) = wire (up t) @
                (case resync_request ?sub of None \<Rightarrow> [] | Some y \<Rightarrow> [(rpcId (up t), y)])"
          by (rule P(3))
        show "live (heliusIdToProxy ?t) = live (heliusIdToProxy t) @ fate_reverse p TornDown"
          by (simp add: rv fate_reverse_def)
        show "fates (objs t) ((p, r) # ?R) as = TornDown # fates (objs t) ?R as"
          using True by simp
        show "(TornDown = TornDown) = unsubscribeTimer ?sub" using True by simp
      qed
      then show ?thesis by (simp add: loop_armed [OF i s de True])
    next
      case False
      obtain a as' where as: "as = a # as'"
        using n False by (cases as) (simp_all add: rest)
      let ?t = "after_answer t r ?sub p (Suc i) a"
      note P = after_answer_parts [OF de o, of p "Suc i" a]
      have mf: "List.map_filter resolved as =
                  (case resolved a of None \<Rightarrow> [] | Some h \<Rightarrow> [h]) @ List.map_filter resolved as'"
        by (simp add: as List.map_filter_simps split: option.splits)
      have rv: "live (heliusIdToProxy ?t) = live (heliusIdToProxy t) @ fate_reverse p (Resubscribed a)"
      proof (cases "resolved a")
        case None
        then show ?thesis by (simp add: P(5) fate_reverse_def)
      next
        case (Some h)
        then have "h \<notin> fst ` set (live (heliusIdToProxy t))" using nk mf by auto
        then show ?thesis using Some by (simp add: P(5) fate_reverse_def live_mset_new)
      qed
      have po: "proxySubId (resynced ?sub a) = p" using r by (simp add: resynced_def)
      have sm: "subs ?t = mdelete (subs t) p \<or> subs ?t = subs t" using P(2) by simp
      note C = carry [OF i s f d P(1) po sm]
      have ih: "resync_result ?t (Suc i) as' (resync_answers (handleReconnected_loop ?t (Suc i)) as')"
      proof (rule Suc.IH [OF _ C(1) C(2) P(4)])
        show "length (subs ?t) - Suc i = k" using Suc.prems(1) by (simp add: C(5))
        have "filter (\<lambda>e. \<not> unsubscribeTimer (objs ?t ! snd e)) ?R =
              filter (\<lambda>e. \<not> unsubscribeTimer (objs t ! snd e)) ?R"
          by (rule filter_cong) (simp_all add: C(4))
        then show "length as' = length (filter (\<lambda>e. \<not> unsubscribeTimer (objs ?t ! snd e))
                (live (drop (Suc i) (subs ?t))))"
          using n False by (simp add: C(3) rest as)
        show "distinct (List.map_filter resolved as')" using dn mf by simp
        show "set (List.map_filter resolved as') \<inter> fst ` set (live (heliusIdToProxy ?t)) = {}"
          using nk dn unfolding rv mf by (auto simp: fate_reverse_def split: option.splits)
        show "heliusSubId (objs ?t ! snd e) \<notin>
                fst ` set (live (heliusIdToProxy ?t)) \<union> set (List.map_filter resolved as')"
          if "e \<in> set (live (drop (Suc i) (subs ?t)))" "unsubscribeTimer (objs ?t ! snd e)" for e
        proof -
          have 1: "e \<in> set ?R" using that(1) by (simp add: C(3))
          have 2: "unsubscribeTimer (objs t ! snd e)" using that(2) by (simp add: C(4) [OF 1])
          have "heliusSubId (objs t ! snd e) \<notin>
              fst ` set (live (heliusIdToProxy t)) \<union> set (List.map_filter resolved as)"
            using st [of e] 1 2 by (simp add: rest)
          then show ?thesis
            unfolding rv mf C(4) [OF 1] by (auto simp: fate_reverse_def split: option.splits)
        qed
      qed
      have "resync_result t i as (resync_answers (handleReconnected_loop ?t (Suc i)) as')"
      proof (rule resync_result_step [OF i s f d _ _ _ _ _ _ ih, where x = "Resubscribed a" and n = "rpcId (up t)"])
        show "objs ?t = (objs t)[r := fate_object ?sub (Resubscribed a)]"
          by (simp add: P(1) fate_object_def)
        show "subs ?t = (if Resubscribed a = TornDown then mdelete (subs t) p else subs t)"
          using P(2) by simp
        show "wire (up ?t) = wire (up t) @
                (case resync_request ?sub of None \<Rightarrow> [] | Some y \<Rightarrow> [(rpcId (up t), y)])"
          using False by (simp add: P(3) resync_request_def)
        show "live (heliusIdToProxy ?t) = live (heliusIdToProxy t) @ fate_reverse p (Resubscribed a)"
          by (rule rv)
        show "fates (objs t) ((p, r) # ?R) as = Resubscribed a # fates (objs t) ?R as'"
          using False by (simp add: as)
        show "(Resubscribed a = TornDown) = unsubscribeTimer ?sub" using False by simp
      qed
      then show ?thesis
        by (simp add: loop_reissue [OF i s de False o] as answer_reissue [OF o])
    qed
  qed
qed

section \<open>Up to the first reconnect\<close>

text \<open>
  Until the socket has opened for the first time every \<open>subscribe\<close> is rejected on the
  spot and leaves no forward entry, so the first \<open>reconnected\<close> event finds nothing to
  resynchronise. From there to the next opening of the socket a reverse entry names a
  subscription that is neither pending nor cancelled.
\<close>

lemma live_mdelete: "live (mdelete m k) = filter (\<lambda>e. fst e \<noteq> k) (live m)"
  by (induction m) (auto simp: mdelete_def split: option.splits)

lemma ws_sendRequest [simp]: "ws (fst (sendRequest u m ps k)) = ws u"
  by (simp add: sendRequest_def)

lemma ws_handleMessage [simp]: "ws (fst (handleMessage u msg)) = ws u"
  by (simp add: handleMessage_def split: jsval.splits option.splits)

lemma ws_fireTimeout [simp]: "ws (fst (fireTimeout u i)) = ws u"
  by (simp add: fireTimeout_def split: option.splits)

lemma ws_teardown [simp]: "ws (up (teardown s r)) = ws (up s)"
  by (simp add: teardown_def Let_def split: option.splits)

lemma ws_subscribe_settled [simp]: "ws (up (subscribe_settled s r out)) = ws (up s)"
  by (simp add: subscribe_settled_def send_def split: option.splits sum.splits)

lemma ws_subscribe [simp]: "ws (up (subscribe s c m ps uuid)) = ws (up s)"
  by (simp add: subscribe_def Let_def split: option.splits)

lemma ws_graceTimeout [simp]: "ws (up (graceTimeout s r)) = ws (up s)"
  by (simp add: graceTimeout_def split: option.splits)

lemma ws_reissue [simp]: "ws (up (fst (reissue s r sub p j))) = ws (up s)"
  by (simp add: reissue_def)

lemma ws_loop [simp]: "ws (up (handleReconnected_loop s i)) = ws (up s)"
proof (induction s i rule: handleReconnected_loop.induct)
  case (1 s i)
  show ?case
    by (subst handleReconnected_loop.simps) (auto simp: 1 split: option.splits)
qed

lemma ws_settle [simp]: "ws (up (settle s k out)) = ws (up s)"
  by (cases k) (simp_all add: resubscribe_settled_def split: sum.splits)

lemma ws_handleRawMessage [simp]: "ws (up (handleRawMessage s c d uuid)) = ws (up s)"
  by (simp add: handleRawMessage_def sendError_def send_def split: option.splits ClientMessage.splits)


lemma empty_teardown [simp]: "live (subs s) = [] \<Longrightarrow> live (subs (teardown s r)) = []"
  by (simp add: subs_teardown live_mdelete split: option.splits)

lemma empty_removeSub [simp]: "live (subs s) = [] \<Longrightarrow> live (subs (removeSub s p)) = []"
  by (simp add: removeSub_def live_mdelete split: option.splits)

lemma empty_subscribe_settled [simp]:
  "live (subs s) = [] \<Longrightarrow> live (subs (subscribe_settled s r out)) = []"
  by (simp add: subscribe_settled_def split: option.splits sum.splits)

lemma empty_graceTimeout [simp]: "live (subs s) = [] \<Longrightarrow> live (subs (graceTimeout s r)) = []"
  by (simp add: graceTimeout_def split: option.splits)













section \<open>A resync that runs undisturbed\<close>

text \<open>
  Take the state after any trace in which no proxy id is drawn twice, let the socket
  open, and let upstream answer the re-issued creates one after the other (with a
  result, with an error, or not at all), no other event falling in between. Suppose
  the ids it hands out are pairwise different and different from the upstream ids that
  the subscriptions with an armed timer hold from the old connection. Then: the
  reverse table is empty once the \<open>reconnected\<close> handler has started; at the end the
  forward table holds exactly the subscriptions whose timer was not armed, under their
  proxy ids; the requests written to the socket are, in the order of the forward
  table, the unsubscribe request that \<open>teardown\<close> sends for each subscription with an
  armed timer (none when it has no upstream id or its create is in flight) and the
  create request, with its method and params, of each other one, whatever the answers
  to the earlier ones were; every subscription with an armed timer has been torn down
  with its timer cleared, every other one has the upstream id of its answer, or none
  if the request failed; and the reverse table holds exactly one entry per successful
  create, from the new upstream id to the proxy id. The condition on the ids is needed:
  see \<open>stale_id_reused\<close> below.
\<close>

theorem resync_undisturbed:
  assumes f: "fresh_run initial es"
    and n: "length as =
              length (filter (\<lambda>e. \<not> unsubscribeTimer (objs (run initial es) ! snd e))
                        (live (subs (run initial es))))"
    and dn: "distinct (List.map_filter resolved as)"
    and st: "\<forall>e \<in> set (live (subs (run initial es))).
               unsubscribeTimer (objs (run initial es) ! snd e) \<longrightarrow>
                 heliusSubId (objs (run initial es) ! snd e) \<notin> set (List.map_filter resolved as)"
  shows "live (heliusIdToProxy (step (run initial es) UpstreamOpen)) = []
       \<and> live (subs (resync_answers (step (run initial es) UpstreamOpen) as)) =
           filter (\<lambda>e. \<not> unsubscribeTimer (objs (run initial es) ! snd e))
             (live (subs (run initial es)))
       \<and> (\<exists>w. wire (up (resync_answers (step (run initial es) UpstreamOpen) as)) =
                wire (up (run initial es)) @ w
              \<and> map snd w =
                  List.map_filter (\<lambda>e. resync_request (objs (run initial es) ! snd e))
                    (live (subs (run initial es))))
       \<and> map (\<lambda>e. objs (resync_answers (step (run initial es) UpstreamOpen) as) ! snd e)
             (live (subs (run initial es))) =
           map2 (\<lambda>e x. fate_object (objs (run initial es) ! snd e) x)
             (live (subs (run initial es)))
             (fates (objs (run initial es)) (live (subs (run initial es))) as)
       \<and> live (heliusIdToProxy (resync_answers (step (run initial es) UpstreamOpen) as)) =
           concat (map2 (\<lambda>e x. fate_reverse (fst e) x)
                     (live (subs (run initial es)))
                     (fates (objs (run initial es)) (live (subs (run initial es))) as))"
proof -
  let ?s = "run initial es"
  let ?t = "?s\<lparr>up := ws_open (up ?s), heliusIdToProxy := mclear (heliusIdToProxy ?s)\<rparr>"
  have e: "step ?s UpstreamOpen = handleReconnected_loop ?t 0"
    by (simp add: handleReconnected_def)
  have i: "inv_forward ?s"
    using registry_inv_run [OF registry_inv_initial f] by (simp add: registry_inv_def)
  have u: "distinct (map fst (live (subs ?s)))"
    using unique_keys_run [OF unique_keys_initial, of es] by (simp add: unique_keys_def)
  have 1: "live (heliusIdToProxy (step ?s UpstreamOpen)) = []"
    unfolding e by (rule reverse_loop_empty) simp
  have "resync_result ?t 0 as (resync_answers (handleReconnected_loop ?t 0) as)"
  proof (rule resync_loop [OF refl])
    show "inv_forward ?t" using i by (simp add: inv_forward_def)
    show "distinct (map fst (live (subs ?t)))" using u by simp
    show "ws (up ?t) = Some OPEN" by (simp add: ws_open_def)
    show "length as = length (filter (\<lambda>e. \<not> unsubscribeTimer (objs ?t ! snd e))
            (live (drop 0 (subs ?t))))"
      using n by simp
    show "distinct (List.map_filter resolved as)" by (rule dn)
    show "set (List.map_filter resolved as) \<inter> fst ` set (live (heliusIdToProxy ?t)) = {}"
      by simp
    show "heliusSubId (objs ?t ! snd e) \<notin>
            fst ` set (live (heliusIdToProxy ?t)) \<union> set (List.map_filter resolved as)"
      if "e \<in> set (live (drop 0 (subs ?t)))" "unsubscribeTimer (objs ?t ! snd e)" for e
      using st that by simp
  qed
  then have 2: "resync_result ?t 0 as (resync_answers (step ?s UpstreamOpen) as)"
    unfolding e .
  show ?thesis
    using 1 2 unfolding resync_result_def by (simp add: ws_open_def)
qed


text \<open>
  An instance: of three subscriptions the first has its timer armed; the re-issued
  create of the second is answered with an error, that of the third with id 11.
\<close>

lemma resync_undisturbed_example:
  "live (heliusIdToProxy (step (run initial resync_example) UpstreamOpen)) = []
   \<and> live (subs (resync_answers (step (run initial resync_example) UpstreamOpen)
                  [ErrorResponse (JStr ''busy''), Result (JNum 11)])) =
       [(''sub_bbbbbbbbbbbb'', 1), (''sub_cccccccccccc'', 2)]
   \<and> live (heliusIdToProxy (resync_answers (step (run initial resync_example) UpstreamOpen)
                  [ErrorResponse (JStr ''busy''), Result (JNum 11)])) =
       [(JNum 11, ''sub_cccccccccccc'')]"
proof -
  let ?as = "[ErrorResponse (JStr ''busy''), Result (JNum 11)]"
  have S: "live (subs (run initial resync_example)) =
             [(''sub_aaaaaaaaaaaa'', 0), (''sub_bbbbbbbbbbbb'', 1), (''sub_cccccccccccc'', 2)]"
    by (simp add: resync_example_def trace_defs eval_defs)
  have O: "objs (run initial resync_example) =
      [\<lparr>proxySubId = ''sub_aaaaaaaaaaaa'', connectionId = ''c1'',
          methodName = ''slotSubscribe'', params = [], heliusSubId = JNum 7,
          pendingPromise = False, cancelled = False, unsubscribeTimer = True\<rparr>,
       \<lparr>proxySubId = ''sub_bbbbbbbbbbbb'', connectionId = ''c2'',
          methodName = ''slotSubscribe'', params = [], heliusSubId = JNum 8,
          pendingPromise = False, cancelled = False, unsubscribeTimer = False\<rparr>,
       \<lparr>proxySubId = ''sub_cccccccccccc'', connectionId = ''c3'',
          methodName = ''slotSubscribe'', params = [], heliusSubId = JNum 9,
          pendingPromise = False, cancelled = False, unsubscribeTimer = False\<rparr>]"
    by (simp add: resync_example_def trace_defs eval_defs)
  have f: "fresh_run initial resync_example"
    by (simp add: fresh_def resync_example_def trace_defs eval_defs)
  have n: "length ?as =
             length (filter (\<lambda>e. \<not> unsubscribeTimer (objs (run initial resync_example) ! snd e))
                       (live (subs (run initial resync_example))))"
    unfolding S O by simp
  have dn: "distinct (List.map_filter resolved ?as)"
    by (simp add: List.map_filter_simps)
  have st: "\<forall>e \<in> set (live (subs (run initial resync_example))).
               unsubscribeTimer (objs (run initial resync_example) ! snd e) \<longrightarrow>
                 heliusSubId (objs (run initial resync_example) ! snd e)
                   \<notin> set (List.map_filter resolved ?as)"
    unfolding S O by (simp add: List.map_filter_simps)
  show ?thesis
    using resync_undisturbed [OF f n dn st] unfolding S O
    by (simp add: fate_reverse_def List.map_filter_simps)
qed

section \<open>The request/response contract of the connection manager\<close>

text \<open>
  Claim C4. \<open>sendRequest\<close> rejects with the not-connected error when the socket is not
  open, and then assigns no correlation id and registers nothing (the state is
  unchanged). Otherwise it takes the next correlation id, writes the request and
  registers a pending request with a timeout of 30 seconds. For a request pending under
  id \<open>i\<close>, the first of the timeout and the matching response settles the promise and
  removes the entry: the timeout rejects with the timeout error, a response with a
  truthy \<open>error\<close> field (any JSON-RPC error object is) rejects with that error, any
  other response resolves with its \<open>result\<close> field. After either, the entry is gone, so
  neither a later matching response nor the timeout settles the promise again.
\<close>

theorem sendRequest_contract:
  "(ws u \<noteq> Some OPEN \<longrightarrow> sendRequest u m ps k = (u, Some NotConnected))
   \<and> (ws u = Some OPEN \<longrightarrow>
        snd (sendRequest u m ps k) = None
        \<and> rpcId (fst (sendRequest u m ps k)) = rpcId u + 1
        \<and> wire (fst (sendRequest u m ps k)) = wire u @ [(rpcId u, m, ps)]
        \<and> mget (pending (fst (sendRequest u m ps k))) (rpcId u) = Some \<lparr>handler = k, timer = 30000\<rparr>)
   \<and> (mget (pending u) i = Some \<lparr>handler = k, timer = 30000\<rparr> \<and> getprop msg ''id'' = JNum i \<longrightarrow>
        fireTimeout u i = (u\<lparr>pending := mdelete (pending u) i\<rparr>, Settle k (Inl (Timeout i)))
        \<and> handleMessage (fst (fireTimeout u i)) msg = (fst (fireTimeout u i), Dropped)
        \<and> fireTimeout (fst (fireTimeout u i)) i = (fst (fireTimeout u i), Dropped)
        \<and> fst (handleMessage u msg) = u\<lparr>pending := mdelete (pending u) i\<rparr>
        \<and> snd (handleMessage u msg) =
              (if truthy (getprop msg ''error'')
               then Settle k (Inl (UpstreamError (getprop msg ''error'')))
               else Settle k (Inr (getprop msg ''result'')))
        \<and> fireTimeout (fst (handleMessage u msg)) i = (fst (handleMessage u msg), Dropped)
        \<and> handleMessage (fst (handleMessage u msg)) msg = (fst (handleMessage u msg), Dropped))"
proof (intro conjI impI)
  assume "ws u \<noteq> Some OPEN"
  then show "sendRequest u m ps k = (u, Some NotConnected)"
    by (simp add: sendRequest_def)
next
  assume o: "ws u = Some OPEN"
  show "snd (sendRequest u m ps k) = None"
    using o by (simp add: sendRequest_def)
  show "rpcId (fst (sendRequest u m ps k)) = rpcId u + 1"
    using o by (simp add: sendRequest_def)
  show "wire (fst (sendRequest u m ps k)) = wire u @ [(rpcId u, m, ps)]"
    using o by (simp add: sendRequest_def)
  show "mget (pending (fst (sendRequest u m ps k))) (rpcId u) = Some \<lparr>handler = k, timer = 30000\<rparr>"
    using o by (simp add: sendRequest_def)
next
  assume h: "mget (pending u) i = Some \<lparr>handler = k, timer = 30000\<rparr> \<and> getprop msg ''id'' = JNum i"
  then have nn: "msg \<noteq> JNull" by auto
  show t: "fireTimeout u i = (u\<lparr>pending := mdelete (pending u) i\<rparr>, Settle k (Inl (Timeout i)))"
    using h by (simp add: fireTimeout_def)
  show "handleMessage (fst (fireTimeout u i)) msg = (fst (fireTimeout u i), Dropped)"
    using h nn by (simp add: t handleMessage_def)
  show "fireTimeout (fst (fireTimeout u i)) i = (fst (fireTimeout u i), Dropped)"
    by (simp add: t) (simp add: fireTimeout_def)
  show m1: "fst (handleMessage u msg) = u\<lparr>pending := mdelete (pending u) i\<rparr>"
    using h nn by (simp add: handleMessage_def)
  show "snd (handleMessage u msg) =
              (if truthy (getprop msg ''error'')
               then Settle k (Inl (UpstreamError (getprop msg ''error'')))
               else Settle k (Inr (getprop msg ''result'')))"
    using h nn by (simp add: handleMessage_def)
  show "fireTimeout (fst (handleMessage u msg)) i = (fst (handleMessage u msg), Dropped)"
    by (simp add: m1) (simp add: fireTimeout_def)
  show "handleMessage (fst (handleMessage u msg)) msg = (fst (handleMessage u msg), Dropped)"
    using h nn by (simp add: m1) (simp add: handleMessage_def)
qed

theorem sendRequest_contract_witness:
  "sendRequest (up initial) ''slotSubscribe'' [] (SubscribeK 0) = (up initial, Some NotConnected)
   \<and> snd (sendRequest (ws_open (up initial)) ''slotSubscribe'' [] (SubscribeK 0)) = None
   \<and> mget (pending (fst (sendRequest (ws_open (up initial)) ''slotSubscribe'' [] (SubscribeK 0)))) 1
        = Some \<lparr>handler = SubscribeK 0, timer = 30000\<rparr>
   \<and> snd (fireTimeout (fst (sendRequest (ws_open (up initial)) ''slotSubscribe'' [] (SubscribeK 0))) 1)
        = Settle (SubscribeK 0) (Inl (Timeout 1))
   \<and> snd (handleMessage (fst (sendRequest (ws_open (up initial)) ''slotSubscribe'' [] (SubscribeK 0)))
             (JObj [(''id'', JNum 1), (''result'', JNum 7)]))
        = Settle (SubscribeK 0) (Inr (JNum 7))
   \<and> snd (handleMessage (fst (sendRequest (ws_open (up initial)) ''slotSubscribe'' [] (SubscribeK 0)))
             (JObj [(''id'', JNum 1), (''error'', JObj [(''code'', JNum (-32602))])]))
        = Settle (SubscribeK 0) (Inl (UpstreamError (JObj [(''code'', JNum (-32602))])))"
proof -
  let ?u = "ws_open (up initial)"
  let ?v = "fst (sendRequest ?u ''slotSubscribe'' [] (SubscribeK 0))"
  have c: "ws (up initial) \<noteq> Some OPEN" by (simp add: initial_def)
  have o: "ws ?u = Some OPEN" by (simp add: ws_open_def)
  have r: "rpcId ?u = 1" by (simp add: ws_open_def initial_def)
  have p: "mget (pending ?v) 1 = Some \<lparr>handler = SubscribeK 0, timer = 30000\<rparr>"
    using sendRequest_contract [of ?u "''slotSubscribe''" "[]" "SubscribeK 0"] o r by simp
  have i1: "getprop (JObj [(''id'', JNum 1), (''result'', JNum 7)]) ''id'' = JNum 1" by simp
  have i2: "getprop (JObj [(''id'', JNum 1), (''error'', JObj [(''code'', JNum (-32602))])]) ''id'' = JNum 1"
    by simp
  show ?thesis
    using sendRequest_contract [of "up initial" "''slotSubscribe''" "[]" "SubscribeK 0"] c
      sendRequest_contract [of ?u "''slotSubscribe''" "[]" "SubscribeK 0"] o r
      sendRequest_contract [of ?v _ _ "SubscribeK 0" 1 "JObj [(''id'', JNum 1), (''result'', JNum 7)]"] p i1
      sendRequest_contract [of ?v _ _ "SubscribeK 0" 1
        "JObj [(''id'', JNum 1), (''error'', JObj [(''code'', JNum (-32602))])]"] i2
    by simp
qed

section \<open>Classification of upstream messages\<close>

text \<open>
  Claim C5, as the code has it. A message with a numeric \<open>id\<close> is a response: when the
  id matches a pending request, the entry is removed (its timeout cancelled with it)
  and the caller's continuation then runs in the state without the entry; when it
  matches none, the message is dropped, whether or not it names a method. A message
  without a numeric \<open>id\<close> whose \<open>method\<close> is a non-empty string is handed on unchanged
  as a notification event.
\<close>

theorem handleMessage_classification:
  "(getprop msg ''id'' = JNum i \<and> mget (pending (up s)) i = Some p \<longrightarrow>
      fst (handleMessage (up s) msg) = (up s)\<lparr>pending := mdelete (pending (up s)) i\<rparr>
      \<and> mget (pending (fst (handleMessage (up s) msg))) i = None
      \<and> snd (handleMessage (up s) msg) =
           Settle (handler p)
             (if truthy (getprop msg ''error'') then Inl (UpstreamError (getprop msg ''error''))
              else Inr (getprop msg ''result''))
      \<and> step s (UpstreamMessage msg) =
           settle (s\<lparr>up := (up s)\<lparr>pending := mdelete (pending (up s)) i\<rparr>\<rparr>) (handler p)
             (if truthy (getprop msg ''error'') then Inl (UpstreamError (getprop msg ''error''))
              else Inr (getprop msg ''result'')))
   \<and> (getprop msg ''id'' = JNum i \<and> mget (pending (up s)) i = None \<longrightarrow>
      handleMessage (up s) msg = (up s, Dropped) \<and> step s (UpstreamMessage msg) = s)
   \<and> ((\<forall>j. getprop msg ''id'' \<noteq> JNum j) \<and> getprop msg ''method'' = JStr m \<and> m \<noteq> [] \<longrightarrow>
      handleMessage (up s) msg = (up s, Notification msg)
      \<and> step s (UpstreamMessage msg) = handleNotification s msg)"
proof (intro conjI impI)
  assume h: "getprop msg ''id'' = JNum i \<and> mget (pending (up s)) i = Some p"
  then have nn: "msg \<noteq> JNull" by auto
  show a: "fst (handleMessage (up s) msg) = (up s)\<lparr>pending := mdelete (pending (up s)) i\<rparr>"
    using h nn by (simp add: handleMessage_def)
  show "mget (pending (fst (handleMessage (up s) msg))) i = None"
    by (simp add: a)
  show b: "snd (handleMessage (up s) msg) =
           Settle (handler p)
             (if truthy (getprop msg ''error'') then Inl (UpstreamError (getprop msg ''error''))
              else Inr (getprop msg ''result''))"
    using h nn by (simp add: handleMessage_def)
  show "step s (UpstreamMessage msg) =
           settle (s\<lparr>up := (up s)\<lparr>pending := mdelete (pending (up s)) i\<rparr>\<rparr>) (handler p)
             (if truthy (getprop msg ''error'') then Inl (UpstreamError (getprop msg ''error''))
              else Inr (getprop msg ''result''))"
    by (simp add: a b)
next
  assume h: "getprop msg ''id'' = JNum i \<and> mget (pending (up s)) i = None"
  then have nn: "msg \<noteq> JNull" by auto
  show c: "handleMessage (up s) msg = (up s, Dropped)"
    using h nn by (simp add: handleMessage_def)
  show "step s (UpstreamMessage msg) = s"
    by (simp add: c)
next
  assume h: "(\<forall>j. getprop msg ''id'' \<noteq> JNum j) \<and> getprop msg ''method'' = JStr m \<and> m \<noteq> []"
  then have nn: "msg \<noteq> JNull" by auto
  show c: "handleMessage (up s) msg = (up s, Notification msg)"
    using h nn by (auto simp: handleMessage_def split: jsval.splits)
  show "step s (UpstreamMessage msg) = handleNotification s msg"
    by (simp add: c)
qed

theorem handleMessage_classification_witness:
  "snd (handleMessage
          (up (run initial [UpstreamOpen, ClientMessage ''c1'' (Some (JObj [(''action'', JStr ''subscribe''), (''method'', JStr ''slotSubscribe'')])) ''aaaaaaaaaaaa'']))
          (JObj [(''id'', JNum 1), (''result'', JNum 7)]))
     = Settle (SubscribeK 0) (Inr (JNum 7))
   \<and> mget (pending (fst (handleMessage
          (up (run initial [UpstreamOpen, ClientMessage ''c1'' (Some (JObj [(''action'', JStr ''subscribe''), (''method'', JStr ''slotSubscribe'')])) ''aaaaaaaaaaaa'']))
          (JObj [(''id'', JNum 1), (''result'', JNum 7)])))) 1 = None
   \<and> step initial (UpstreamMessage (JObj [(''id'', JNum 1), (''result'', JNum 7)])) = initial
   \<and> handleMessage (up initial)
        (JObj [(''method'', JStr ''slotNotification''),
               (''params'', JObj [(''subscription'', JNum 7), (''result'', JNum 1)])]) =
      (up initial,
       Notification (JObj [(''method'', JStr ''slotNotification''),
               (''params'', JObj [(''subscription'', JNum 7), (''result'', JNum 1)])]))"
proof -
  let ?s = "run initial [UpstreamOpen, ClientMessage ''c1'' (Some (JObj [(''action'', JStr ''subscribe''), (''method'', JStr ''slotSubscribe'')])) ''aaaaaaaaaaaa'']"
  have g: "mget (pending (up ?s)) 1 = Some \<lparr>handler = SubscribeK 0, timer = 30000\<rparr>"
    by (simp add: eval_defs)
  have n: "mget (pending (up initial)) 1 = None" by (simp add: initial_def)
  show ?thesis
    using handleMessage_classification [of "JObj [(''id'', JNum 1), (''result'', JNum 7)]" 1 ?s
        "\<lparr>handler = SubscribeK 0, timer = 30000\<rparr>"] g
      handleMessage_classification [of "JObj [(''id'', JNum 1), (''result'', JNum 7)]" 1 initial] n
      handleMessage_classification [of "JObj [(''method'', JStr ''slotNotification''),
               (''params'', JObj [(''subscription'', JNum 7), (''result'', JNum 1)])]" _ initial _
               "''slotNotification''"]
    by simp
qed

text \<open>
  As stated, C5 has every message with a method name and no matching id forwarded.
  A message carrying both a method name and a numeric id that matches no pending
  request is not: \<open>handleMessage\<close> returns after the lookup and emits nothing.
\<close>

theorem handleMessage_unmatched_id_counterexample:
  "getprop (JObj [(''id'', JNum 99), (''method'', JStr ''slotNotification''),
                  (''params'', JObj [(''subscription'', JNum 7), (''result'', JNum 1)])]) ''method''
     = JStr ''slotNotification''
   \<and> mget (pending (up initial)) 99 = None
   \<and> handleMessage (up initial)
        (JObj [(''id'', JNum 99), (''method'', JStr ''slotNotification''),
               (''params'', JObj [(''subscription'', JNum 7), (''result'', JNum 1)])])
      = (up initial, Dropped)"
  by (simp add: handleMessage_def initial_def)

section \<open>Unsubscribing\<close>

text \<open>
  Claim C7. \<open>unsubscribe\<close> of an unknown proxy id returns false and changes nothing.
  Of a known one it returns true, having removed the lookup of the owning connection
  and armed the grace-period timer of the subscription; nothing else changes: the
  connection manager is untouched (no request is sent), and the forward and reverse
  lookups are as before. The forward entry goes when the timer fires.
\<close>

theorem unsubscribe_contract:
  "(mget (subs s) p = None \<longrightarrow> unsubscribe s p = (s, False))
   \<and> (mget (subs s) p = Some r \<and> deref s r = Some sub \<longrightarrow>
        snd (unsubscribe s p)
        \<and> fst (unsubscribe s p) =
            s\<lparr>objs := (objs s)[r := sub\<lparr>unsubscribeTimer := True\<rparr>],
              connToSub := mdelete (connToSub s) (connectionId sub)\<rparr>
        \<and> mget (connToSub (fst (unsubscribe s p))) (connectionId sub) = None
        \<and> deref (fst (unsubscribe s p)) r = Some (sub\<lparr>unsubscribeTimer := True\<rparr>)
        \<and> up (fst (unsubscribe s p)) = up s
        \<and> subs (fst (unsubscribe s p)) = subs s
        \<and> heliusIdToProxy (fst (unsubscribe s p)) = heliusIdToProxy s
        \<and> mget (subs (graceTimeout (fst (unsubscribe s p)) r)) (proxySubId sub) = None)"
proof (intro conjI impI)
  assume "mget (subs s) p = None"
  then show "unsubscribe s p = (s, False)" by (simp add: unsubscribe_def)
next
  assume h: "mget (subs s) p = Some r \<and> deref s r = Some sub"
  then have r: "r < length (objs s)" and o: "objs s ! r = sub"
    by (auto simp: deref_def split: if_splits)
  show "snd (unsubscribe s p)" using h by (simp add: unsubscribe_def)
  show e: "fst (unsubscribe s p) =
            s\<lparr>objs := (objs s)[r := sub\<lparr>unsubscribeTimer := True\<rparr>],
              connToSub := mdelete (connToSub s) (connectionId sub)\<rparr>"
    using h r o by (simp add: unsubscribe_def scheduleRemoval_def modify_def)
  show "mget (connToSub (fst (unsubscribe s p))) (connectionId sub) = None"
    by (simp add: e)
  show d: "deref (fst (unsubscribe s p)) r = Some (sub\<lparr>unsubscribeTimer := True\<rparr>)"
    using r by (simp add: e deref_def)
  show "up (fst (unsubscribe s p)) = up s" by (simp add: e)
  show "subs (fst (unsubscribe s p)) = subs s" by (simp add: e)
  show "heliusIdToProxy (fst (unsubscribe s p)) = heliusIdToProxy s" by (simp add: e)
  show "mget (subs (graceTimeout (fst (unsubscribe s p)) r)) (proxySubId sub) = None"
    by (simp add: graceTimeout_def d subs_teardown)
qed

theorem unsubscribe_contract_witness:
  "unsubscribe initial ''sub_aaaaaaaaaaaa'' = (initial, False)
   \<and> snd (unsubscribe (run initial [UpstreamOpen, ClientMessage ''c1'' (Some (JObj [(''action'', JStr ''subscribe''), (''method'', JStr ''slotSubscribe'')])) ''aaaaaaaaaaaa''])
             ''sub_aaaaaaaaaaaa'')
   \<and> mget (connToSub (fst (unsubscribe
              (run initial [UpstreamOpen, ClientMessage ''c1'' (Some (JObj [(''action'', JStr ''subscribe''), (''method'', JStr ''slotSubscribe'')])) ''aaaaaaaaaaaa''])
              ''sub_aaaaaaaaaaaa''))) ''c1'' = None
   \<and> up (fst (unsubscribe
              (run initial [UpstreamOpen, ClientMessage ''c1'' (Some (JObj [(''action'', JStr ''subscribe''), (''method'', JStr ''slotSubscribe'')])) ''aaaaaaaaaaaa''])
              ''sub_aaaaaaaaaaaa''))
      = up (run initial [UpstreamOpen, ClientMessage ''c1'' (Some (JObj [(''action'', JStr ''subscribe''), (''method'', JStr ''slotSubscribe'')])) ''aaaaaaaaaaaa''])
   \<and> mget (subs (graceTimeout (fst (unsubscribe
              (run initial [UpstreamOpen, ClientMessage ''c1'' (Some (JObj [(''action'', JStr ''subscribe''), (''method'', JStr ''slotSubscribe'')])) ''aaaaaaaaaaaa''])
              ''sub_aaaaaaaaaaaa'')) 0)) ''sub_aaaaaaaaaaaa'' = None"
proof -
  let ?s = "run initial [UpstreamOpen, ClientMessage ''c1'' (Some (JObj [(''action'', JStr ''subscribe''), (''method'', JStr ''slotSubscribe'')])) ''aaaaaaaaaaaa'']"
  let ?sub = "\<lparr>proxySubId = ''sub_aaaaaaaaaaaa'', connectionId = ''c1'', methodName = ''slotSubscribe'',
               params = [], heliusSubId = JNull, pendingPromise = True, cancelled = False,
               unsubscribeTimer = False\<rparr>"
  have a: "mget (subs initial) ''sub_aaaaaaaaaaaa'' = None" by (simp add: initial_def)
  have b: "mget (subs ?s) ''sub_aaaaaaaaaaaa'' = Some 0 \<and> deref ?s 0 = Some ?sub"
    by (simp add: eval_defs)
  have c: "unsubscribe initial ''sub_aaaaaaaaaaaa'' = (initial, False)"
    using unsubscribe_contract [of initial "''sub_aaaaaaaaaaaa''"] a by blast
  have d: "snd (unsubscribe ?s ''sub_aaaaaaaaaaaa'')
           \<and> mget (connToSub (fst (unsubscribe ?s ''sub_aaaaaaaaaaaa''))) (connectionId ?sub) = None
           \<and> up (fst (unsubscribe ?s ''sub_aaaaaaaaaaaa'')) = up ?s
           \<and> mget (subs (graceTimeout (fst (unsubscribe ?s ''sub_aaaaaaaaaaaa'')) 0)) (proxySubId ?sub) = None"
    using unsubscribe_contract [of ?s "''sub_aaaaaaaaaaaa''" 0 ?sub] b by blast
  show ?thesis using c d by simp
qed

section \<open>Reconnect backoff\<close>

text \<open>
  Claim C8. While the manager is not destroyed, the delay scheduled by the \<open>(n+1)\<close>-th
  close of the socket since the last successful open is \<open>min (1000 * 2 ^ n) 30000\<close>
  milliseconds, whatever other events (none of them an open) come in between. The
  attempt counter is set to zero by a successful open, and no other event lowers it.
\<close>

theorem reconnect_backoff:
  "(\<not> destroyed (up s) \<and> UpstreamOpen \<notin> set es \<longrightarrow>
      reconnectTimer (up (run (step s UpstreamOpen) (es @ [UpstreamClose]))) =
        Some (min (1000 * 2 ^ count_list es UpstreamClose) 30000))
   \<and> reconnectAttempt (up (step s UpstreamOpen)) = 0
   \<and> (e \<noteq> UpstreamOpen \<longrightarrow> reconnectAttempt (up s) \<le> reconnectAttempt (up (step s e)))"
proof (intro conjI impI)
  assume h: "\<not> destroyed (up s) \<and> UpstreamOpen \<notin> set es"
  have o: "backoff (up (step s UpstreamOpen)) = (0, reconnectTimer (up s), destroyed (up s))"
    using backoff_step [of s UpstreamOpen] by simp
  then have o1: "reconnectAttempt (up (step s UpstreamOpen)) = 0"
    and o2: "\<not> destroyed (up (step s UpstreamOpen))"
    using h by (simp_all add: backoff_def)
  let ?t = "run (step s UpstreamOpen) es"
  have r: "reconnectAttempt (up ?t) = count_list es UpstreamClose" and d: "\<not> destroyed (up ?t)"
    using backoff_run [of es "step s UpstreamOpen"] h o1 o2 by simp_all
  have "backoff (up (step ?t UpstreamClose)) = backoff (scheduleReconnect (up ?t))"
    using backoff_step [of ?t UpstreamClose] by simp
  then have "reconnectTimer (up (step ?t UpstreamClose)) =
               Some (min (1000 * 2 ^ count_list es UpstreamClose) 30000)"
    using r d by (simp add: backoff_def scheduleReconnect_def)
  then show "reconnectTimer (up (run (step s UpstreamOpen) (es @ [UpstreamClose]))) =
        Some (min (1000 * 2 ^ count_list es UpstreamClose) 30000)"
    by (simp add: run_snoc)
next
  show "reconnectAttempt (up (step s UpstreamOpen)) = 0"
    using backoff_step [of s UpstreamOpen] unfolding backoff_def by simp
next
  assume "e \<noteq> UpstreamOpen"
  then show "reconnectAttempt (up s) \<le> reconnectAttempt (up (step s e))"
    using backoff_step [of s e] by (auto simp: backoff_def scheduleReconnect_def split: if_splits)
qed

theorem reconnect_backoff_witness:
  "reconnectTimer (up (run (step initial UpstreamOpen) ([] @ [UpstreamClose]))) = Some 1000
   \<and> reconnectTimer (up (run (step initial UpstreamOpen)
        ([UpstreamClose, ReconnectTimeout, UpstreamClose, ReconnectTimeout] @ [UpstreamClose]))) = Some 4000
   \<and> reconnectTimer (up (run (step initial UpstreamOpen)
        ([UpstreamClose, UpstreamClose, UpstreamClose, UpstreamClose, UpstreamClose] @ [UpstreamClose])))
        = Some 30000
   \<and> reconnectAttempt (up initial) \<le> reconnectAttempt (up (step initial UpstreamClose))"
proof -
  have d: "\<not> destroyed (up initial)" by (simp add: initial_def)
  have a: "reconnectTimer (up (run (step initial UpstreamOpen) ([] @ [UpstreamClose]))) = Some 1000"
    using reconnect_backoff [of initial "[]"] d by simp
  have b: "reconnectTimer (up (run (step initial UpstreamOpen)
        ([UpstreamClose, ReconnectTimeout, UpstreamClose, ReconnectTimeout] @ [UpstreamClose]))) = Some 4000"
    using reconnect_backoff [of initial "[UpstreamClose, ReconnectTimeout, UpstreamClose, ReconnectTimeout]"] d
    by simp
  have c: "reconnectTimer (up (run (step initial UpstreamOpen)
        ([UpstreamClose, UpstreamClose, UpstreamClose, UpstreamClose, UpstreamClose] @ [UpstreamClose])))
        = Some 30000"
    using reconnect_backoff [of initial "[UpstreamClose, UpstreamClose, UpstreamClose, UpstreamClose, UpstreamClose]"] d
    by simp
  have e: "reconnectAttempt (up initial) \<le> reconnectAttempt (up (step initial UpstreamClose))"
    using reconnect_backoff [of initial _ UpstreamClose] by simp
  show ?thesis using a b c e by blast
qed

section \<open>Validation of client messages\<close>

text \<open>
  Claim C9. \<open>validateClientMessage\<close> accepts a parsed message exactly when the
  specification does (\<open>accepted_by_spec\<close>); an accepted subscribe carries the method
  and the params, \<open>[]\<close> when absent. For a message that is not JSON or fails
  validation, \<open>handleRawMessage\<close> hands one error reply to \<open>clients.send\<close> for the
  sending connection and changes nothing else: it closes nothing and registers
  nothing.
\<close>

theorem validation_contract:
  "(validateClientMessage raw \<noteq> None \<longleftrightarrow> accepted_by_spec raw)
   \<and> (validateClientMessage raw = Some (ClientSubscribe m ps) \<longrightarrow>
        getprop raw ''method'' = JStr m \<and>
        (if getprop raw ''params'' = JUndefined then ps = [] else getprop raw ''params'' = JArr ps))
   \<and> (validateClientMessage raw = Some (ClientUnsubscribe sid) \<longrightarrow>
        getprop raw ''subscriptionId'' = JStr sid)
   \<and> handleRawMessage s c None uuid = s\<lparr>outbox := outbox s @ [(c, ErrorReply InvalidJSON)]\<rparr>
   \<and> (validateClientMessage raw = None \<longrightarrow>
        handleRawMessage s c (Some raw) uuid =
          s\<lparr>outbox := outbox s @ [(c, ErrorReply InvalidMessageFormat)]\<rparr>)"
  using validate_iff [of raw] validate_subscribe [of raw m ps] validate_unsubscribe [of raw sid]
  by (simp add: handleRawMessage_def sendError_def send_def)

theorem validation_contract_witness:
  "validateClientMessage (JObj [(''action'', JStr ''subscribe''), (''method'', JStr ''slotSubscribe'')]) = Some (ClientSubscribe ''slotSubscribe'' [])
   \<and> accepted_by_spec (JObj [(''action'', JStr ''subscribe''), (''method'', JStr ''slotSubscribe'')])
   \<and> getprop (JObj [(''action'', JStr ''unsubscribe''), (''subscriptionId'', JStr ''sub_aaaaaaaaaaaa'')])
        ''subscriptionId'' = JStr ''sub_aaaaaaaaaaaa''
   \<and> handleRawMessage initial ''c1''
        (Some (JObj [(''action'', JStr ''subscribe''), (''method'', JStr ''getSlot'')])) ''aaaaaaaaaaaa''
      = initial\<lparr>outbox := [(''c1'', ErrorReply InvalidMessageFormat)]\<rparr>"
proof -
  have a: "validateClientMessage (JObj [(''action'', JStr ''subscribe''), (''method'', JStr ''slotSubscribe'')]) = Some (ClientSubscribe ''slotSubscribe'' [])"
    by (simp add: validateClientMessage_def VALID_METHODS_def)
  have b: "validateClientMessage
             (JObj [(''action'', JStr ''unsubscribe''), (''subscriptionId'', JStr ''sub_aaaaaaaaaaaa'')])
     = Some (ClientUnsubscribe ''sub_aaaaaaaaaaaa'')"
    by (simp add: validateClientMessage_def)
  have c: "validateClientMessage (JObj [(''action'', JStr ''subscribe''), (''method'', JStr ''getSlot'')])
     = None"
    by (simp add: validateClientMessage_def VALID_METHODS_def)
  have o: "outbox initial = []" by (simp add: initial_def)
  show ?thesis
    using validation_contract [of "JObj [(''action'', JStr ''subscribe''), (''method'', JStr ''slotSubscribe'')]" "''slotSubscribe''" "[]"] a
      validation_contract [of "JObj [(''action'', JStr ''unsubscribe''), (''subscriptionId'', JStr ''sub_aaaaaaaaaaaa'')]"
        _ _ "''sub_aaaaaaaaaaaa''"] b
      validation_contract [of "JObj [(''action'', JStr ''subscribe''), (''method'', JStr ''getSlot'')]"
        _ _ _ initial "''c1''" "''aaaaaaaaaaaa''"] c o
    by simp
qed

section \<open>Where the registry departs from its specification\<close>

text \<open>
  Claim C1 fails on the code. Before the timeout of the first request the three lookups
  agree: the reverse entry of upstream id 8 names the subscription, which holds id 8.
  The timeout runs the \<open>.catch\<close> of \<open>subscribe\<close>, whose \<open>removeSub\<close> removes the
  forward and the connection entry and leaves the reverse entry: it now names a proxy
  id that maps to no subscription, and no unsubscribe request was written for id 8.
\<close>

theorem removeSub_leaves_reverse_entry:
  "mget (subs (run initial (butlast timeout_after_resync))) ''sub_aaaaaaaaaaaa'' = Some 0
   \<and> mget (heliusIdToProxy (run initial (butlast timeout_after_resync))) (JNum 8) = Some ''sub_aaaaaaaaaaaa''
   \<and> map heliusSubId (objs (run initial (butlast timeout_after_resync))) = [JNum 8]
   \<and> mget (subs (run initial timeout_after_resync)) ''sub_aaaaaaaaaaaa'' = None
   \<and> mget (connToSub (run initial timeout_after_resync)) ''c1'' = None
   \<and> mget (heliusIdToProxy (run initial timeout_after_resync)) (JNum 8) = Some ''sub_aaaaaaaaaaaa''
   \<and> wire (up (run initial timeout_after_resync)) =
        [(1, ''slotSubscribe'', []), (2, ''slotSubscribe'', [])]
   \<and> outbox (run initial timeout_after_resync) = [(''c1'', ErrorReply (SubscribeFailed (Timeout 1)))]"
  by (simp add: trace_defs eval_defs)

text \<open>
  Claim C2 fails on the code. \<open>unsubscribe\<close> removes the connection's lookup, so the
  next \<open>subscribe\<close> of the connection finds no subscription of its own: it creates a
  second one under a new proxy id and writes a second create request. The first
  subscription stays registered with its timer armed; nothing cancels the timer.
\<close>

theorem resubscribe_in_grace_duplicates:
  "live (subs (run initial resubscribe_in_grace)) = [(''sub_aaaaaaaaaaaa'', 0), (''sub_bbbbbbbbbbbb'', 1)]
   \<and> msize (subs (run initial resubscribe_in_grace)) = 2
   \<and> wire (up (run initial resubscribe_in_grace)) =
        [(1, ''slotSubscribe'', []), (2, ''slotSubscribe'', [])]
   \<and> map unsubscribeTimer (objs (run initial resubscribe_in_grace)) = [True, False]
   \<and> map methodName (objs (run initial resubscribe_in_grace)) = [''slotSubscribe'', ''slotSubscribe'']
   \<and> map params (objs (run initial resubscribe_in_grace)) = [[], []]"
  by (simp add: trace_defs eval_defs msize_def)

text \<open>
  Claim C3 fails on the code. The subscription torn down while its re-issued create is
  in flight is marked cancelled, but the \<open>.then\<close> of \<open>handleReconnected\<close> does not
  read the mark: when the create resolves with upstream id 8, the reverse entry for 8
  is installed under the proxy id of the removed subscription, and no unsubscribe
  request for 8 is written (the four requests on the wire are creates).
\<close>

theorem cancelled_resubscribe_installs_reverse_entry:
  "map cancelled (objs (run initial (butlast replaced_during_resync))) = [True, False]
   \<and> map pendingPromise (objs (run initial (butlast replaced_during_resync))) = [True, True]
   \<and> mget (subs (run initial (butlast replaced_during_resync))) ''sub_aaaaaaaaaaaa'' = None
   \<and> mget (heliusIdToProxy (run initial replaced_during_resync)) (JNum 8) = Some ''sub_aaaaaaaaaaaa''
   \<and> mget (subs (run initial replaced_during_resync)) ''sub_aaaaaaaaaaaa'' = None
   \<and> wire (up (run initial replaced_during_resync)) =
        [(1, ''slotSubscribe'', []), (2, ''slotSubscribe'', []),
         (3, ''slotSubscribe'', []), (4, ''slotSubscribe'', [])]"
  by (simp add: trace_defs eval_defs)

text \<open>
  Claim C6 fails on the code. The resync tears a subscription with an armed timer down
  with the upstream id it holds from the old connection: \<open>teardown\<close> deletes the
  reverse entry under that id and writes an unsubscribe request for it to the new
  socket. Here the re-issued create of the first subscription has just been answered
  with the same id 8 on the new connection. Its fresh reverse entry is deleted and its
  new upstream subscription is unsubscribed: the subscription stays registered with
  upstream id 8, the reverse table is empty, and a notification for 8 reaches no
  client.
\<close>

theorem resync_teardown_deletes_fresh_entry:
  "map unsubscribeTimer (objs (run initial (butlast stale_id_reused))) = [False, True]
   \<and> map heliusSubId (objs (run initial (butlast stale_id_reused))) = [JNull, JNum 8]
   \<and> live (subs (run initial stale_id_reused)) = [(''sub_aaaaaaaaaaaa'', 0)]
   \<and> map heliusSubId (objs (run initial stale_id_reused)) = [JNum 8, JNum 8]
   \<and> live (heliusIdToProxy (run initial stale_id_reused)) = []
   \<and> wire (up (run initial stale_id_reused)) =
        [(1, ''slotSubscribe'', []), (2, ''slotSubscribe'', []),
         (3, ''slotSubscribe'', []), (4, ''slotUnsubscribe'', [JNum 8])]
   \<and> outbox (run initial (stale_id_reused @ [UpstreamMessage (slot_notification 8)])) =
        outbox (run initial stale_id_reused)"
  by (simp add: trace_defs eval_defs)
section \<open>A cancelled create still answers \<open>subscribed\<close>\<close>



end
